theory Spec2Isabelle
  imports Main
begin

section \<open>Lorc: a streaming JSON validator (lexer and recursive-descent parser)\<close>

text \<open>
  The Go program \<^verbatim>\<open>main.go\<close> reads a stream rune by rune (\<^verbatim>\<open>bufio.Reader.ReadRune\<close>),
  turns it into tokens (\<^verbatim>\<open>Lexer.NextToken\<close>) and checks the token sequence against the
  grammar of a JSON object (\<^verbatim>\<open>Parser.ParseObject\<close>). The companion program checks only
  the first and last byte of a file (\<^verbatim>\<open>validJSON\<close>).

  Conventions of the embedding:
  \<^item> a rune is its code point, a natural number; the input is the sequence of runes that
    \<^verbatim>\<open>ReadRune\<close> decodes from the bytes (UTF-8 decoding is the library's and is not modelled);
  \<^item> a Go \<^verbatim>\<open>string\<close> built from runes is the list of those runes;
  \<^item> a method with a pointer receiver takes the struct and returns the updated struct;
  \<^item> a Go \<^verbatim>\<open>error\<close> result is an option: \<open>None\<close> is \<^verbatim>\<open>nil\<close>, \<open>Some msg\<close> carries the message.
\<close>

subsection \<open>Strings and formatting\<close>

type_synonym rune = nat
type_synonym gostring = "rune list"

text \<open>An ASCII literal of the source as a Go string.\<close>

definition runes :: "string \<Rightarrow> gostring" where
  "runes s = map of_char s"

text \<open>The verb \<^verbatim>\<open>%d\<close> of \<^verbatim>\<open>fmt\<close> on a non-negative integer.\<close>

fun decimal :: "nat \<Rightarrow> gostring" where
  "decimal n = (if n < 10 then [48 + n] else decimal (n div 10) @ [48 + n mod 10])"

declare decimal.simps [simp del]

subsection \<open>The Unicode predicates\<close>

text \<open>
  \<^verbatim>\<open>unicode.IsDigit\<close> and \<^verbatim>\<open>unicode.IsLetter\<close> are the Go library's. On ASCII they are fixed
  by Unicode itself: the decimal digits are \<^verbatim>\<open>0\<close> to \<^verbatim>\<open>9\<close>, the letters are \<^verbatim>\<open>A\<close> to \<^verbatim>\<open>Z\<close>
  and \<^verbatim>\<open>a\<close> to \<^verbatim>\<open>z\<close>. Beyond ASCII they are range tables of the library, which are not
  part of this repository: the model takes them as a parameter.
\<close>

record unicode_tables =
  Digit :: "rune \<Rightarrow> bool"
  Letter :: "rune \<Rightarrow> bool"

definition unicode_IsDigit :: "unicode_tables \<Rightarrow> rune \<Rightarrow> bool" where
  "unicode_IsDigit U r = (if r < 128 then 48 \<le> r \<and> r \<le> 57 else Digit U r)"

definition unicode_IsLetter :: "unicode_tables \<Rightarrow> rune \<Rightarrow> bool" where
  "unicode_IsLetter U r =
     (if r < 128 then (65 \<le> r \<and> r \<le> 90) \<or> (97 \<le> r \<and> r \<le> 122) else Letter U r)"

subsection \<open>Tokens and the lexer state\<close>

datatype TokenType =
    TokenError
  | TokenLeftBrace
  | TokenRightBrace
  | TokenLeftBracket
  | TokenRightBracket
  | TokenString
  | TokenNumber
  | TokenBoolean
  | TokenNull
  | TokenColon
  | TokenComma
  | TokenEOF

record Token =
  Type :: TokenType
  Literal :: gostring

text \<open>
  The reader under the lexer: the runes it has not delivered yet, and the error it
  reports once they are used up (\<^verbatim>\<open>io.EOF\<close> at a clean end of the stream, or a read
  fault). The error is reported again on every later read.
\<close>

datatype ioerr = EOF | IOFault

record bufio_Reader =
  pending :: "rune list"
  final :: ioerr

definition ReadRune :: "bufio_Reader \<Rightarrow> (ioerr + rune) \<times> bufio_Reader" where
  "ReadRune rd =
     (case pending rd of
        [] \<Rightarrow> (Inl (final rd), rd)
      | c # cs \<Rightarrow> (Inr c, rd\<lparr>pending := cs\<rparr>))"

record Lexer =
  reader :: bufio_Reader
  char :: rune
  err :: "ioerr option"

definition readChar :: "Lexer \<Rightarrow> Lexer" where
  "readChar l =
     (case ReadRune (reader l) of
        (Inl e, rd) \<Rightarrow> l\<lparr>reader := rd, char := 0, err := Some e\<rparr>
      | (Inr c, rd) \<Rightarrow> l\<lparr>reader := rd, char := c\<rparr>)"

definition NewLexer :: "bufio_Reader \<Rightarrow> Lexer" where
  "NewLexer input = readChar \<lparr>reader = input, char = 0, err = None\<rparr>"

text \<open>What is left to read: the pending runes, and the current one unless the stream has failed.\<close>

definition remaining :: "Lexer \<Rightarrow> nat" where
  "remaining l = length (pending (reader l)) + (if err l = None then 1 else 0)"

lemma remaining_readChar_le: "remaining (readChar l) \<le> remaining l"
  by (simp add: remaining_def readChar_def ReadRune_def split: list.splits)

lemma remaining_readChar_less: "err l = None \<Longrightarrow> remaining (readChar l) < remaining l"
  by (simp add: remaining_def readChar_def ReadRune_def split: list.splits)

subsection \<open>Scanning\<close>

definition is_space :: "rune \<Rightarrow> bool" where
  "is_space c = (c = 32 \<or> c = 9 \<or> c = 10 \<or> c = 13)"

function skipWhitespace :: "Lexer \<Rightarrow> Lexer" where
  "skipWhitespace l = (if is_space (char l) then skipWhitespace (readChar l) else l)"
  by pat_completeness auto
termination
  by (relation "measure (\<lambda>l. length (pending (reader l)) + (if is_space (char l) then 1 else 0))")
     (auto simp: readChar_def ReadRune_def is_space_def split: list.splits)

declare skipWhitespace.simps [simp del]

text \<open>The \<^verbatim>\<open>switch\<close> of \<^verbatim>\<open>readString\<close> on the rune after a backslash.\<close>

definition escape :: "rune \<Rightarrow> rune option" where
  "escape c =
     (if c = 34 \<or> c = 92 \<or> c = 47 then Some c
      else if c = 98 then Some 8
      else if c = 102 then Some 12
      else if c = 110 then Some 10
      else if c = 114 then Some 13
      else if c = 116 then Some 9
      else None)"

text \<open>The \<^verbatim>\<open>for\<close> loop of \<^verbatim>\<open>readString\<close>; \<open>Inl\<close> is the early \<^verbatim>\<open>return "", err\<close>.\<close>

function readString_loop :: "gostring \<Rightarrow> Lexer \<Rightarrow> (gostring + gostring) \<times> Lexer" where
  "readString_loop result l =
     (if char l \<noteq> 34 \<and> err l = None then
        (if char l = 92 then
           (let l1 = readChar l in
            case escape (char l1) of
              None \<Rightarrow> (Inl (runes ''invalid escape sequence: '' @ [92, char l1]), l1)
            | Some c \<Rightarrow> readString_loop (result @ [c]) (readChar l1))
         else if char l < 32 then
           (Inl (runes ''invalid control character in string: '' @ decimal (char l)), l)
         else readString_loop (result @ [char l]) (readChar l))
      else (Inr result, l))"
  by pat_completeness auto
termination
proof (relation "measure (\<lambda>(result, l). remaining l)", goal_cases)
  case 1
  show ?case by simp
next
  case (2 result l l1 c)
  have "remaining (readChar (readChar l)) \<le> remaining (readChar l)"
    by (rule remaining_readChar_le)
  with 2 remaining_readChar_less [of l] show ?case by simp
next
  case (3 result l)
  with remaining_readChar_less [of l] show ?case by simp
qed

declare readString_loop.simps [simp del]

definition readString :: "Lexer \<Rightarrow> (gostring + gostring) \<times> Lexer" where
  "readString l0 =
     (let l = readChar l0 in
      case readString_loop [] l of
        (Inl e, l') \<Rightarrow> (Inl e, l')
      | (Inr result, l') \<Rightarrow>
          if err l' = Some EOF then (Inl (runes ''unterminated string''), l')
          else (Inr result, readChar l'))"

text \<open>
  The loop \<^verbatim>\<open>for l.err == nil && unicode.IsDigit(l.char)\<close>, which \<^verbatim>\<open>readNumber\<close> runs for
  the integer part, the fraction and the exponent.
\<close>

function readDigits :: "unicode_tables \<Rightarrow> gostring \<Rightarrow> Lexer \<Rightarrow> gostring \<times> Lexer" where
  "readDigits U result l =
     (if err l = None \<and> unicode_IsDigit U (char l)
      then readDigits U (result @ [char l]) (readChar l)
      else (result, l))"
  by pat_completeness auto
termination
  by (relation "measure (\<lambda>(U, result, l). remaining l)")
     (auto simp: remaining_readChar_less)

declare readDigits.simps [simp del]

text \<open>The phases of \<^verbatim>\<open>readNumber\<close>, in the order of the source.\<close>

definition number_sign :: "gostring \<Rightarrow> Lexer \<Rightarrow> gostring \<times> Lexer" where
  "number_sign result l =
     (if char l = 45 then (result @ [char l], readChar l) else (result, l))"

definition number_fraction :: "unicode_tables \<Rightarrow> gostring \<Rightarrow> Lexer \<Rightarrow> gostring \<times> Lexer" where
  "number_fraction U result l =
     (if char l = 46 then readDigits U (result @ [char l]) (readChar l) else (result, l))"

definition exponent_sign :: "gostring \<Rightarrow> Lexer \<Rightarrow> gostring \<times> Lexer" where
  "exponent_sign result l =
     (if char l = 43 \<or> char l = 45 then (result @ [char l], readChar l) else (result, l))"

definition number_exponent :: "unicode_tables \<Rightarrow> gostring \<Rightarrow> Lexer \<Rightarrow> gostring \<times> Lexer" where
  "number_exponent U result l =
     (if char l = 101 \<or> char l = 69 then
        (case exponent_sign (result @ [char l]) (readChar l) of
           (r, l') \<Rightarrow> readDigits U r l')
      else (result, l))"

definition readNumber :: "unicode_tables \<Rightarrow> Lexer \<Rightarrow> gostring \<times> Lexer" where
  "readNumber U l0 =
     (case number_sign [] l0 of (r1, l1) \<Rightarrow>
      case readDigits U r1 l1 of (r2, l2) \<Rightarrow>
      case number_fraction U r2 l2 of (r3, l3) \<Rightarrow>
        number_exponent U r3 l3)"

function readIdentifier_loop :: "unicode_tables \<Rightarrow> gostring \<Rightarrow> Lexer \<Rightarrow> gostring \<times> Lexer" where
  "readIdentifier_loop U result l =
     (if err l = None \<and> (unicode_IsLetter U (char l) \<or> char l = 95)
      then readIdentifier_loop U (result @ [char l]) (readChar l)
      else (result, l))"
  by pat_completeness auto
termination
  by (relation "measure (\<lambda>(U, result, l). remaining l)")
     (auto simp: remaining_readChar_less)

declare readIdentifier_loop.simps [simp del]

definition readIdentifier :: "unicode_tables \<Rightarrow> Lexer \<Rightarrow> gostring \<times> Lexer" where
  "readIdentifier U l = readIdentifier_loop U [] l"

definition punctuation :: "TokenType \<Rightarrow> Lexer \<Rightarrow> Token \<times> Lexer" where
  "punctuation ty l = (\<lparr>Type = ty, Literal = [char l]\<rparr>, readChar l)"

definition NextToken :: "unicode_tables \<Rightarrow> Lexer \<Rightarrow> Token \<times> Lexer" where
  "NextToken U l0 =
     (let l = skipWhitespace l0 in
      if err l = Some EOF then (\<lparr>Type = TokenEOF, Literal = []\<rparr>, l)
      else if char l = 123 then punctuation TokenLeftBrace l
      else if char l = 125 then punctuation TokenRightBrace l
      else if char l = 91 then punctuation TokenLeftBracket l
      else if char l = 93 then punctuation TokenRightBracket l
      else if char l = 58 then punctuation TokenColon l
      else if char l = 44 then punctuation TokenComma l
      else if char l = 34 then
        (case readString l of
           (Inl e, l') \<Rightarrow> (\<lparr>Type = TokenError, Literal = e\<rparr>, l')
         | (Inr str, l') \<Rightarrow> (\<lparr>Type = TokenString, Literal = str\<rparr>, l'))
      else if unicode_IsDigit U (char l) \<or> char l = 45 then
        (let (number, l') = readNumber U l
         in (\<lparr>Type = TokenNumber, Literal = number\<rparr>, l'))
      else if unicode_IsLetter U (char l) then
        (let (identifier, l') = readIdentifier U l
         in if identifier = runes ''true'' \<or> identifier = runes ''false''
            then (\<lparr>Type = TokenBoolean, Literal = identifier\<rparr>, l')
            else if identifier = runes ''null''
            then (\<lparr>Type = TokenNull, Literal = identifier\<rparr>, l')
            else (\<lparr>Type = TokenError,
                   Literal = runes ''invalid identifier: '' @ identifier\<rparr>, l'))
      else (\<lparr>Type = TokenError, Literal = [char l]\<rparr>, l))"

subsection \<open>The parser\<close>

text \<open>
  The parser holds the lexer and one lookahead token. \<^verbatim>\<open>NewParser\<close> starts from the zero
  token (type 0, which is \<^verbatim>\<open>TokenError\<close>, and the empty literal) and loads the first token.
\<close>

record Parser =
  lexer :: Lexer
  token :: Token

type_synonym error = gostring

definition nextToken :: "unicode_tables \<Rightarrow> Parser \<Rightarrow> Parser" where
  "nextToken U p = (case NextToken U (lexer p) of (tok, l) \<Rightarrow> p\<lparr>lexer := l, token := tok\<rparr>)"

definition NewParser :: "unicode_tables \<Rightarrow> Lexer \<Rightarrow> Parser" where
  "NewParser U l = nextToken U \<lparr>lexer = l, token = \<lparr>Type = TokenError, Literal = []\<rparr>\<rparr>"

text \<open>The messages of \<^verbatim>\<open>fmt.Errorf\<close>; 39 is the apostrophe.\<close>

definition quoted :: "gostring \<Rightarrow> gostring" where
  "quoted s = [39] @ s @ [39]"

definition expected_value :: "Token \<Rightarrow> error" where
  "expected_value tok = runes ''expected value, got '' @ Literal tok"

definition expected_array_separator :: "Token \<Rightarrow> error" where
  "expected_array_separator tok = runes ''expected ',' or ']', got '' @ quoted (Literal tok)"

definition expected_left_brace :: "Token \<Rightarrow> error" where
  "expected_left_brace tok = runes ''expected '{', got '' @ quoted (Literal tok)"

definition expected_string_key :: "Token \<Rightarrow> error" where
  "expected_string_key tok = runes ''expected string key, got '' @ Literal tok"

definition expected_colon :: "Token \<Rightarrow> error" where
  "expected_colon tok = runes ''expected ':', got '' @ quoted (Literal tok)"

definition invalid_value :: "error \<Rightarrow> error" where
  "invalid_value e = runes ''invalid value: '' @ e"

definition expected_object_separator :: "Token \<Rightarrow> error" where
  "expected_object_separator tok = runes ''expected ',' or '}', got '' @ quoted (Literal tok)"

text \<open>
  \<^verbatim>\<open>parseValue\<close>, \<^verbatim>\<open>parseArray\<close> and \<^verbatim>\<open>ParseObject\<close> call one another, and the last two loop
  (\<^verbatim>\<open>for { ... }\<close>): \<open>parseArray_loopF\<close> and \<open>ParseObject_loopF\<close> are one round of these loops,
  from the top of the loop body. Each function returns the error (\<open>None\<close> for \<^verbatim>\<open>nil\<close>) and
  the parser as the call leaves it. The first argument after the tables bounds the calls
  and rounds that may still be made (the Go code has no such bound; see below): with none
  left the result is \<open>None\<close>, the call has not returned.
\<close>

fun parseValueF :: "unicode_tables \<Rightarrow> nat \<Rightarrow> Parser \<Rightarrow> (error option \<times> Parser) option"
  and parseArrayF :: "unicode_tables \<Rightarrow> nat \<Rightarrow> Parser \<Rightarrow> (error option \<times> Parser) option"
  and parseArray_loopF :: "unicode_tables \<Rightarrow> nat \<Rightarrow> Parser \<Rightarrow> (error option \<times> Parser) option"
  and ParseObjectF :: "unicode_tables \<Rightarrow> nat \<Rightarrow> Parser \<Rightarrow> (error option \<times> Parser) option"
  and ParseObject_loopF :: "unicode_tables \<Rightarrow> nat \<Rightarrow> Parser \<Rightarrow> (error option \<times> Parser) option"
where
  "parseValueF U 0 p = None"
| "parseValueF U (Suc n) p =
     (if Type (token p) = TokenString \<or> Type (token p) = TokenNumber
         \<or> Type (token p) = TokenBoolean \<or> Type (token p) = TokenNull
      then Some (None, nextToken U p)
      else if Type (token p) = TokenLeftBrace then ParseObjectF U n p
      else if Type (token p) = TokenLeftBracket then parseArrayF U n p
      else Some (Some (expected_value (token p)), p))"
| "parseArrayF U 0 p = None"
| "parseArrayF U (Suc n) p0 =
     (let p = nextToken U p0 in
      if Type (token p) = TokenRightBracket then Some (None, nextToken U p)
      else parseArray_loopF U n p)"
| "parseArray_loopF U 0 p = None"
| "parseArray_loopF U (Suc n) p0 =
     (case parseValueF U n p0 of
        None \<Rightarrow> None
      | Some (Some e, p) \<Rightarrow> Some (Some e, p)
      | Some (None, p) \<Rightarrow>
          if Type (token p) = TokenRightBracket then Some (None, nextToken U p)
          else if Type (token p) \<noteq> TokenComma
          then Some (Some (expected_array_separator (token p)), p)
          else parseArray_loopF U n (nextToken U p))"
| "ParseObjectF U 0 p = None"
| "ParseObjectF U (Suc n) p0 =
     (if Type (token p0) \<noteq> TokenLeftBrace
      then Some (Some (expected_left_brace (token p0)), p0)
      else let p = nextToken U p0 in
        if Type (token p) = TokenRightBrace then
          (let p' = nextToken U p in
           if Type (token p') = TokenEOF then Some (None, p') else Some (None, p'))
        else ParseObject_loopF U n p)"
| "ParseObject_loopF U 0 p = None"
| "ParseObject_loopF U (Suc n) p0 =
     (if Type (token p0) \<noteq> TokenString
      then Some (Some (expected_string_key (token p0)), p0)
      else let p1 = nextToken U p0 in
        if Type (token p1) \<noteq> TokenColon
        then Some (Some (expected_colon (token p1)), p1)
        else let p2 = nextToken U p1 in
          case parseValueF U n p2 of
            None \<Rightarrow> None
          | Some (Some e, p3) \<Rightarrow> Some (Some (invalid_value e), p3)
          | Some (None, p3) \<Rightarrow>
              if Type (token p3) = TokenRightBrace then
                (let p4 = nextToken U p3 in
                 if Type (token p4) = TokenEOF then Some (None, p4) else Some (None, p4))
              else if Type (token p3) \<noteq> TokenComma
              then Some (Some (expected_object_separator (token p3)), p3)
              else ParseObject_loopF U n (nextToken U p3))"

subsection \<open>Fuel\<close>

text \<open>
  The parse functions above take the number of nested calls and loop rounds they may
  still make, and return \<open>None\<close> when it is used up. A parser state needs no more than
  \<open>fuel\<close>, a bound in what is left of the input (section ``Every call of the parser
  returns''), so the entry points below run the functions with that much.
\<close>

definition live :: "Token \<Rightarrow> bool" where
  "live tok = (Type tok \<noteq> TokenError \<and> Type tok \<noteq> TokenEOF)"

definition weight :: "Parser \<Rightarrow> nat" where
  "weight p = 2 * remaining (lexer p) + (if live (token p) then 1 else 0)"

definition fuel :: "Parser \<Rightarrow> nat" where
  "fuel p = 3 * weight p + 3"

text \<open>
  The lexer states that \<^verbatim>\<open>NewLexer\<close> and \<^verbatim>\<open>readChar\<close> reach: once the stream has failed,
  the current rune is the end marker and nothing is pending.
\<close>

definition Lexer_ok :: "Lexer \<Rightarrow> bool" where
  "Lexer_ok l = (err l = None \<or> (char l = 0 \<and> pending (reader l) = []))"

definition Parser_ok :: "Parser \<Rightarrow> bool" where
  "Parser_ok p = Lexer_ok (lexer p)"

text \<open>A call returns, in a state that has read no further than the parser could.\<close>

definition returns :: "Parser \<Rightarrow> (error option \<times> Parser) option \<Rightarrow> bool" where
  "returns p res =
     (case res of None \<Rightarrow> False | Some (e, p') \<Rightarrow> Parser_ok p' \<and> weight p' \<le> weight p)"

subsection \<open>The entry points\<close>

text \<open>
  The functions of the source, run with the fuel of the state they start in; \<open>validate\<close> is
  what \<^verbatim>\<open>main\<close> does with its input: a lexer, a parser, one call of \<^verbatim>\<open>ParseObject\<close>, of which it
  keeps the error. \<open>Some None\<close> is ``Valid JSON'', \<open>Some (Some msg)\<close> is ``Invalid JSON: msg''.
  The depth of the Go call stack is not modelled: nesting is unbounded here.
\<close>

definition parseValue :: "unicode_tables \<Rightarrow> Parser \<Rightarrow> (error option \<times> Parser) option" where
  "parseValue U p = parseValueF U (fuel p) p"

definition parseArray :: "unicode_tables \<Rightarrow> Parser \<Rightarrow> (error option \<times> Parser) option" where
  "parseArray U p = parseArrayF U (fuel p) p"

definition ParseObject :: "unicode_tables \<Rightarrow> Parser \<Rightarrow> (error option \<times> Parser) option" where
  "ParseObject U p = ParseObjectF U (fuel p) p"

definition validate :: "unicode_tables \<Rightarrow> bufio_Reader \<Rightarrow> error option option" where
  "validate U input = map_option fst (ParseObject U (NewParser U (NewLexer input)))"

text \<open>An input that delivers the runes of a text and then ends cleanly.\<close>

definition text_stream :: "rune list \<Rightarrow> bufio_Reader" where
  "text_stream t = \<lparr>pending = t, final = EOF\<rparr>"

subsection \<open>The companion checker\<close>

text \<open>
  \<^verbatim>\<open>validJSON\<close> opens the file, asks for its size, reads one byte, seeks to the last byte
  and reads it. The file system maps a name to a regular file: its bytes (the size that
  \<^verbatim>\<open>Stat\<close> reports is their number), the read offset, and which of the calls fail.
  \<open>Read1\<close> is \<^verbatim>\<open>Read\<close> into a buffer of one byte.
\<close>

datatype os_error = OpenError | StatError | ReadError | SeekError | EndOfFile

record os_File =
  bytes :: "char list"
  offset :: nat
  stat_fault :: bool
  read_fault :: bool
  seek_fault :: bool

definition os_Open :: "(string \<rightharpoonup> os_File) \<Rightarrow> string \<Rightarrow> os_error + os_File" where
  "os_Open fs filename =
     (case fs filename of None \<Rightarrow> Inl OpenError | Some f \<Rightarrow> Inr (f\<lparr>offset := 0\<rparr>))"

definition Stat_Size :: "os_File \<Rightarrow> os_error + nat" where
  "Stat_Size f = (if stat_fault f then Inl StatError else Inr (length (bytes f)))"

definition Read1 :: "os_File \<Rightarrow> (os_error + char) \<times> os_File" where
  "Read1 f =
     (if read_fault f then (Inl ReadError, f)
      else if length (bytes f) \<le> offset f then (Inl EndOfFile, f)
      else (Inr (bytes f ! offset f), f\<lparr>offset := Suc (offset f)\<rparr>))"

definition Seek :: "os_File \<Rightarrow> nat \<Rightarrow> os_error + os_File" where
  "Seek f pos = (if seek_fault f then Inl SeekError else Inr (f\<lparr>offset := pos\<rparr>))"

definition validJSON :: "(string \<rightharpoonup> os_File) \<Rightarrow> string \<Rightarrow> bool \<times> os_error option" where
  "validJSON fs filename =
     (case os_Open fs filename of
        Inl e \<Rightarrow> (False, Some e)
      | Inr file \<Rightarrow>
          (case Stat_Size file of
             Inl e \<Rightarrow> (False, Some e)
           | Inr fsize \<Rightarrow>
               if fsize = 0 then (False, None)
               else (case Read1 file of
                  (Inl e, _) \<Rightarrow> (False, Some e)
                | (Inr firstChar, file1) \<Rightarrow>
                    if firstChar \<noteq> CHR ''{'' then (False, None)
                    else (case Seek file1 (fsize - 1) of
                       Inl e \<Rightarrow> (False, Some e)
                     | Inr file2 \<Rightarrow>
                         (case Read1 file2 of
                            (Inl e, _) \<Rightarrow> (False, Some e)
                          | (Inr lastChar, _) \<Rightarrow>
                              if lastChar \<noteq> CHR ''}'' then (False, None)
                              else (True, None))))))"

definition no_fault :: "os_File \<Rightarrow> bool" where
  "no_fault f = (\<not> stat_fault f \<and> \<not> read_fault f \<and> \<not> seek_fault f)"

section \<open>The lexer on the rest of a text\<close>

text \<open>
  The lexer states that \<^verbatim>\<open>NewLexer\<close> and \<^verbatim>\<open>readChar\<close> reach are determined by the text that
  is still to be read: \<open>lex_at f t\<close> is the state whose current rune is the head of \<open>t\<close>
  (the end marker when \<open>t\<close> is empty) over a stream that ends with \<open>f\<close>.
\<close>

definition lex_at :: "ioerr \<Rightarrow> rune list \<Rightarrow> Lexer" where
  "lex_at f t =
     (case t of
        [] \<Rightarrow> \<lparr>reader = \<lparr>pending = [], final = f\<rparr>, char = 0, err = Some f\<rparr>
      | c # cs \<Rightarrow> \<lparr>reader = \<lparr>pending = cs, final = f\<rparr>, char = c, err = None\<rparr>)"

definition ident_char :: "unicode_tables \<Rightarrow> rune \<Rightarrow> bool" where
  "ident_char U c = (unicode_IsLetter U c \<or> c = 95)"

definition parser_at :: "unicode_tables \<Rightarrow> ioerr \<Rightarrow> rune list \<Rightarrow> Parser" where
  "parser_at U f t = NewParser U (lex_at f t)"

lemma NewLexer_lex_at: "NewLexer \<lparr>pending = t, final = f\<rparr> = lex_at f t"
  by (simp add: NewLexer_def readChar_def ReadRune_def lex_at_def split: list.splits)

lemma readChar_lex_at [simp]: "readChar (lex_at f t) = lex_at f (tl t)"
  by (cases t; cases "tl t") (simp_all add: readChar_def ReadRune_def lex_at_def)

lemma char_lex_at [simp]: "char (lex_at f (c # cs)) = c" "char (lex_at f []) = 0"
  by (simp_all add: lex_at_def)

lemma err_lex_at [simp]: "err (lex_at f (c # cs)) = None" "err (lex_at f []) = Some f"
  by (simp_all add: lex_at_def)

lemma remaining_lex_at [simp]: "remaining (lex_at f t) = length t"
  by (cases t) (simp_all add: lex_at_def remaining_def)

lemma not_space_0 [simp]: "\<not> is_space 0" by (simp add: is_space_def)

lemma skipWhitespace_lex_at: "skipWhitespace (lex_at f t) = lex_at f (dropWhile is_space t)"
proof (induction t)
  case Nil
  show ?case by (subst skipWhitespace.simps) simp
next
  case (Cons c cs)
  then show ?case by (subst skipWhitespace.simps) simp
qed

lemma not_digit_0 [simp]: "\<not> unicode_IsDigit U 0" by (simp add: unicode_IsDigit_def)

lemma readDigits_lex_at:
  "readDigits U acc (lex_at f t) =
     (acc @ takeWhile (unicode_IsDigit U) t, lex_at f (dropWhile (unicode_IsDigit U) t))"
proof (induction t arbitrary: acc)
  case Nil
  show ?case by (subst readDigits.simps) simp
next
  case (Cons c cs)
  then show ?case by (subst readDigits.simps) simp
qed

lemma readIdentifier_lex_at:
  "readIdentifier_loop U acc (lex_at f t) =
     (acc @ takeWhile (ident_char U) t, lex_at f (dropWhile (ident_char U) t))"
proof (induction t arbitrary: acc)
  case Nil
  show ?case by (subst readIdentifier_loop.simps) simp
next
  case (Cons c cs)
  have "ident_char U c = (unicode_IsLetter U c \<or> c = 95)" by (simp add: ident_char_def)
  with Cons show ?case by (subst readIdentifier_loop.simps) simp
qed


lemma Lexer_ok_lex_at [simp]: "Lexer_ok (lex_at f t)"
  by (cases t) (simp_all add: Lexer_ok_def lex_at_def)

lemma Lexer_ok_NewLexer: "Lexer_ok (NewLexer input)"
  by (simp add: Lexer_ok_def NewLexer_def readChar_def ReadRune_def split: list.splits)

lemma Lexer_ok_readChar: "Lexer_ok l \<Longrightarrow> Lexer_ok (readChar l)"
  by (auto simp: Lexer_ok_def readChar_def ReadRune_def split: list.splits)

lemma Lexer_ok_char: "Lexer_ok l \<Longrightarrow> char l \<noteq> 0 \<Longrightarrow> err l = None"
  by (auto simp: Lexer_ok_def)

lemma skipWhitespace_le: "remaining (skipWhitespace l) \<le> remaining l"
proof (induction l rule: skipWhitespace.induct)
  case (1 l)
  show ?case
  proof (cases "is_space (char l)")
    case True
    with 1 remaining_readChar_le [of l] show ?thesis
      by (subst skipWhitespace.simps) simp
  next
    case False
    then show ?thesis by (subst skipWhitespace.simps) simp
  qed
qed

lemma skipWhitespace_ok: "Lexer_ok l \<Longrightarrow> Lexer_ok (skipWhitespace l)"
proof (induction l rule: skipWhitespace.induct)
  case (1 l)
  show ?case
  proof (cases "is_space (char l)")
    case True
    with 1 show ?thesis
      by (subst skipWhitespace.simps) (simp add: Lexer_ok_readChar)
  next
    case False
    with 1 show ?thesis by (subst skipWhitespace.simps) simp
  qed
qed

lemma readDigits_le: "remaining (snd (readDigits U acc l)) \<le> remaining l"
proof (induction U acc l rule: readDigits.induct)
  case (1 U result l)
  show ?case
  proof (cases "err l = None \<and> unicode_IsDigit U (char l)")
    case True
    with 1 remaining_readChar_le [of l] show ?thesis
      by (subst readDigits.simps) simp
  next
    case False
    then show ?thesis by (subst readDigits.simps) auto
  qed
qed

lemma readDigits_ok: "Lexer_ok l \<Longrightarrow> Lexer_ok (snd (readDigits U acc l))"
proof (induction U acc l rule: readDigits.induct)
  case (1 U result l)
  show ?case
  proof (cases "err l = None \<and> unicode_IsDigit U (char l)")
    case True
    with 1 show ?thesis
      by (subst readDigits.simps) (simp add: Lexer_ok_readChar)
  next
    case False
    with 1 show ?thesis by (subst readDigits.simps) auto
  qed
qed

lemma readDigits_less:
  "err l = None \<Longrightarrow> unicode_IsDigit U (char l) \<Longrightarrow> remaining (snd (readDigits U acc l)) < remaining l"
  using readDigits_le [of U "acc @ [char l]" "readChar l"] remaining_readChar_less [of l]
  by (subst readDigits.simps) simp

lemma readIdentifier_loop_le: "remaining (snd (readIdentifier_loop U acc l)) \<le> remaining l"
proof (induction U acc l rule: readIdentifier_loop.induct)
  case (1 U result l)
  show ?case
  proof (cases "err l = None \<and> (unicode_IsLetter U (char l) \<or> char l = 95)")
    case True
    with 1 remaining_readChar_le [of l] show ?thesis
      by (subst readIdentifier_loop.simps) simp
  next
    case False
    then show ?thesis by (subst readIdentifier_loop.simps) auto
  qed
qed

lemma readIdentifier_loop_ok: "Lexer_ok l \<Longrightarrow> Lexer_ok (snd (readIdentifier_loop U acc l))"
proof (induction U acc l rule: readIdentifier_loop.induct)
  case (1 U result l)
  show ?case
  proof (cases "err l = None \<and> (unicode_IsLetter U (char l) \<or> char l = 95)")
    case True
    with 1 show ?thesis
      by (subst readIdentifier_loop.simps) (simp add: Lexer_ok_readChar)
  next
    case False
    with 1 show ?thesis by (subst readIdentifier_loop.simps) auto
  qed
qed

lemma readIdentifier_less:
  "err l = None \<Longrightarrow> unicode_IsLetter U (char l) \<Longrightarrow> remaining (snd (readIdentifier U l)) < remaining l"
  unfolding readIdentifier_def
  using readIdentifier_loop_le [of U "[] @ [char l]" "readChar l"] remaining_readChar_less [of l]
  by (subst readIdentifier_loop.simps) simp

lemma readString_loop_le: "remaining (snd (readString_loop acc l)) \<le> remaining l"
proof (induction acc l rule: readString_loop.induct)
  case (1 result l)
  note le1 = remaining_readChar_le [of l]
  note le2 = remaining_readChar_le [of "readChar l"]
  show ?case
  proof (cases "char l \<noteq> 34 \<and> err l = None")
    case False
    then show ?thesis by (subst readString_loop.simps) auto
  next
    case True
    show ?thesis
    proof (cases "char l = 92")
      case esc: True
      show ?thesis
      proof (cases "escape (char (readChar l))")
        case None
        with True esc le1 show ?thesis by (subst readString_loop.simps) (simp add: Let_def)
      next
        case (Some c)
        with True esc have "remaining (snd (readString_loop (result @ [c]) (readChar (readChar l))))
            \<le> remaining (readChar (readChar l))"
          using 1(1) [of "readChar l" c] by simp
        with True esc Some le1 le2 show ?thesis by (subst readString_loop.simps) simp
      qed
    next
      case raw: False
      show ?thesis
      proof (cases "char l < 32")
        case True
        with \<open>char l \<noteq> 34 \<and> err l = None\<close> raw show ?thesis
          by (subst readString_loop.simps) simp
      next
        case False
        with \<open>char l \<noteq> 34 \<and> err l = None\<close> raw have
          "remaining (snd (readString_loop (result @ [char l]) (readChar l))) \<le> remaining (readChar l)"
          using 1(2) by simp
        with \<open>char l \<noteq> 34 \<and> err l = None\<close> raw False le1 show ?thesis
          by (subst readString_loop.simps) simp
      qed
    qed
  qed
qed

lemma readString_loop_ok: "Lexer_ok l \<Longrightarrow> Lexer_ok (snd (readString_loop acc l))"
proof (induction acc l rule: readString_loop.induct)
  case (1 result l)
  note ok1 = Lexer_ok_readChar [OF 1(3)]
  note ok2 = Lexer_ok_readChar [OF ok1]
  show ?case
  proof (cases "char l \<noteq> 34 \<and> err l = None")
    case False
    with 1(3) show ?thesis by (subst readString_loop.simps) auto
  next
    case True
    show ?thesis
    proof (cases "char l = 92")
      case esc: True
      show ?thesis
      proof (cases "escape (char (readChar l))")
        case None
        with True esc ok1 show ?thesis by (subst readString_loop.simps) (simp add: Let_def)
      next
        case (Some c)
        with True esc ok2 have "Lexer_ok (snd (readString_loop (result @ [c]) (readChar (readChar l))))"
          using 1(1) [of "readChar l" c] by simp
        with True esc Some show ?thesis by (subst readString_loop.simps) simp
      qed
    next
      case raw: False
      show ?thesis
      proof (cases "char l < 32")
        case True
        with \<open>char l \<noteq> 34 \<and> err l = None\<close> raw 1(3) show ?thesis
          by (subst readString_loop.simps) simp
      next
        case False
        with \<open>char l \<noteq> 34 \<and> err l = None\<close> raw ok1 have
          "Lexer_ok (snd (readString_loop (result @ [char l]) (readChar l)))"
          using 1(2) by simp
        with \<open>char l \<noteq> 34 \<and> err l = None\<close> raw False show ?thesis
          by (subst readString_loop.simps) simp
      qed
    qed
  qed
qed

lemma readString_le: "remaining (snd (readString l)) \<le> remaining (readChar l)"
  using readString_loop_le [of "[]" "readChar l"]
        remaining_readChar_le [of "snd (readString_loop [] (readChar l))"]
  by (auto simp: readString_def Let_def split: prod.splits sum.splits)

lemma readString_ok: "Lexer_ok l \<Longrightarrow> Lexer_ok (snd (readString l))"
  using readString_loop_ok [of "readChar l" "[]"]
        Lexer_ok_readChar [of "snd (readString_loop [] (readChar l))"]
  by (auto simp: readString_def Let_def Lexer_ok_readChar split: prod.splits sum.splits)



lemma number_sign_le: "remaining (snd (number_sign r l)) \<le> remaining l"
  by (simp add: number_sign_def remaining_readChar_le)

lemma number_sign_ok: "Lexer_ok l \<Longrightarrow> Lexer_ok (snd (number_sign r l))"
  by (simp add: number_sign_def Lexer_ok_readChar)

lemma exponent_sign_le: "remaining (snd (exponent_sign r l)) \<le> remaining l"
  by (simp add: exponent_sign_def remaining_readChar_le)

lemma exponent_sign_ok: "Lexer_ok l \<Longrightarrow> Lexer_ok (snd (exponent_sign r l))"
  by (simp add: exponent_sign_def Lexer_ok_readChar)

lemma number_fraction_le: "remaining (snd (number_fraction U r l)) \<le> remaining l"
  by (auto simp: number_fraction_def intro: order_trans [OF readDigits_le remaining_readChar_le])

lemma number_fraction_ok: "Lexer_ok l \<Longrightarrow> Lexer_ok (snd (number_fraction U r l))"
  by (simp add: number_fraction_def Lexer_ok_readChar readDigits_ok)

lemma number_exponent_le: "remaining (snd (number_exponent U r l)) \<le> remaining l"
proof (cases "char l = 101 \<or> char l = 69")
  case False
  then show ?thesis by (simp add: number_exponent_def)
next
  case True
  obtain r' l' where e: "exponent_sign (r @ [char l]) (readChar l) = (r', l')"
    by (cases "exponent_sign (r @ [char l]) (readChar l)")
  have "remaining l' \<le> remaining (readChar l)"
    using exponent_sign_le [of "r @ [char l]" "readChar l"] e by simp
  with readDigits_le [of U r' l'] remaining_readChar_le [of l] True e show ?thesis
    by (simp add: number_exponent_def)
qed

lemma number_exponent_ok: "Lexer_ok l \<Longrightarrow> Lexer_ok (snd (number_exponent U r l))"
proof (cases "char l = 101 \<or> char l = 69")
  case False
  assume "Lexer_ok l"
  with False show ?thesis by (simp add: number_exponent_def)
next
  case True
  assume ok: "Lexer_ok l"
  obtain r' l' where e: "exponent_sign (r @ [char l]) (readChar l) = (r', l')"
    by (cases "exponent_sign (r @ [char l]) (readChar l)")
  have "Lexer_ok l'"
    using exponent_sign_ok [OF Lexer_ok_readChar [OF ok], of "r @ [char l]"] e by simp
  with True e show ?thesis
    by (simp add: number_exponent_def readDigits_ok)
qed

lemma readNumber_le: "remaining (snd (readNumber U l)) \<le> remaining l"
proof -
  obtain r1 l1 where s1: "number_sign [] l = (r1, l1)" by (cases "number_sign [] l")
  obtain r2 l2 where s2: "readDigits U r1 l1 = (r2, l2)" by (cases "readDigits U r1 l1")
  obtain r3 l3 where s3: "number_fraction U r2 l2 = (r3, l3)" by (cases "number_fraction U r2 l2")
  have "remaining l1 \<le> remaining l" using number_sign_le [of "[]" l] s1 by simp
  moreover have "remaining l2 \<le> remaining l1" using readDigits_le [of U r1 l1] s2 by simp
  moreover have "remaining l3 \<le> remaining l2" using number_fraction_le [of U r2 l2] s3 by simp
  moreover have "remaining (snd (number_exponent U r3 l3)) \<le> remaining l3"
    by (rule number_exponent_le)
  ultimately show ?thesis by (simp add: readNumber_def s1 s2 s3)
qed

lemma readNumber_ok: "Lexer_ok l \<Longrightarrow> Lexer_ok (snd (readNumber U l))"
proof -
  assume ok: "Lexer_ok l"
  obtain r1 l1 where s1: "number_sign [] l = (r1, l1)" by (cases "number_sign [] l")
  obtain r2 l2 where s2: "readDigits U r1 l1 = (r2, l2)" by (cases "readDigits U r1 l1")
  obtain r3 l3 where s3: "number_fraction U r2 l2 = (r3, l3)" by (cases "number_fraction U r2 l2")
  have "Lexer_ok l1" using number_sign_ok [OF ok, of "[]"] s1 by simp
  then have "Lexer_ok l2" using readDigits_ok [of l1 U r1] s2 by simp
  then have "Lexer_ok l3" using number_fraction_ok [of l2 U r2] s3 by simp
  then show ?thesis by (simp add: readNumber_def s1 s2 s3 number_exponent_ok)
qed

lemma readNumber_less:
  assumes "err l = None" and "unicode_IsDigit U (char l) \<or> char l = 45"
  shows "remaining (snd (readNumber U l)) < remaining l"
proof -
  obtain r1 l1 where s1: "number_sign [] l = (r1, l1)" by (cases "number_sign [] l")
  obtain r2 l2 where s2: "readDigits U r1 l1 = (r2, l2)" by (cases "readDigits U r1 l1")
  obtain r3 l3 where s3: "number_fraction U r2 l2 = (r3, l3)" by (cases "number_fraction U r2 l2")
  have "remaining l2 < remaining l"
  proof (cases "char l = 45")
    case True
    then have "l1 = readChar l" using s1 by (simp add: number_sign_def)
    with remaining_readChar_less [OF assms(1)] readDigits_le [of U r1 l1] s2
    show ?thesis by simp
  next
    case False
    then have "l1 = l" using s1 by (simp add: number_sign_def)
    with False assms readDigits_less [of l U r1] s2 show ?thesis by simp
  qed
  moreover have "remaining l3 \<le> remaining l2" using number_fraction_le [of U r2 l2] s3 by simp
  moreover have "remaining (snd (number_exponent U r3 l3)) \<le> remaining l3"
    by (rule number_exponent_le)
  ultimately show ?thesis by (simp add: readNumber_def s1 s2 s3)
qed


lemma not_letter_0 [simp]: "\<not> unicode_IsLetter U 0" by (simp add: unicode_IsLetter_def)

lemma NextToken_le: "remaining (snd (NextToken U l)) \<le> remaining l"
proof -
  define k where "k = skipWhitespace l"
  obtain sr sl where rs: "readString k = (sr, sl)" by (cases "readString k")
  obtain nr nl where rn: "readNumber U k = (nr, nl)" by (cases "readNumber U k")
  obtain ir il where ri: "readIdentifier U k = (ir, il)" by (cases "readIdentifier U k")
  have k: "remaining k \<le> remaining l" by (simp add: k_def skipWhitespace_le)
  have c: "remaining (readChar k) \<le> remaining l"
    using remaining_readChar_le [of k] k by simp
  have s: "remaining sl \<le> remaining l"
    using readString_le [of k] c rs by simp
  have n: "remaining nl \<le> remaining l"
    using readNumber_le [of U k] k rn by simp
  have i: "remaining il \<le> remaining l"
    using readIdentifier_loop_le [of U "[]" k] k ri by (simp add: readIdentifier_def)
  show ?thesis
    unfolding NextToken_def Let_def k_def [symmetric] punctuation_def rs rn ri
    using k c s n i by (simp split: sum.splits)
qed

lemma NextToken_ok: "Lexer_ok l \<Longrightarrow> Lexer_ok (snd (NextToken U l))"
proof -
  assume "Lexer_ok l"
  define k where "k = skipWhitespace l"
  obtain sr sl where rs: "readString k = (sr, sl)" by (cases "readString k")
  obtain nr nl where rn: "readNumber U k = (nr, nl)" by (cases "readNumber U k")
  obtain ir il where ri: "readIdentifier U k = (ir, il)" by (cases "readIdentifier U k")
  have k: "Lexer_ok k" using \<open>Lexer_ok l\<close> by (simp add: k_def skipWhitespace_ok)
  note c = Lexer_ok_readChar [OF k]
  have s: "Lexer_ok sl" using readString_ok [OF k] rs by simp
  have n: "Lexer_ok nl" using readNumber_ok [OF k, of U] rn by simp
  have i: "Lexer_ok il"
    using readIdentifier_loop_ok [OF k, of U "[]"] ri by (simp add: readIdentifier_def)
  show ?thesis
    unfolding NextToken_def Let_def k_def [symmetric] punctuation_def rs rn ri
    using k c s n i by (simp split: sum.splits)
qed

lemma NextToken_less:
  assumes "Lexer_ok l" and "live (fst (NextToken U l))"
  shows "remaining (snd (NextToken U l)) < remaining l"
proof -
  define k where "k = skipWhitespace l"
  obtain sr sl where rs: "readString k = (sr, sl)" by (cases "readString k")
  obtain nr nl where rn: "readNumber U k = (nr, nl)" by (cases "readNumber U k")
  obtain ir il where ri: "readIdentifier U k = (ir, il)" by (cases "readIdentifier U k")
  have ok: "Lexer_ok k" using assms(1) by (simp add: k_def skipWhitespace_ok)
  have k: "remaining k \<le> remaining l" by (simp add: k_def skipWhitespace_le)
  have c: "char k \<noteq> 0 \<Longrightarrow> remaining (readChar k) < remaining l"
    using remaining_readChar_less [of k] Lexer_ok_char [OF ok] k by simp
  have s: "char k \<noteq> 0 \<Longrightarrow> remaining sl < remaining l"
    using readString_le [of k] c rs by simp
  have n: "unicode_IsDigit U (char k) \<or> char k = 45 \<Longrightarrow> remaining nl < remaining l"
    using readNumber_less [of k U] Lexer_ok_char [OF ok] k rn
    by (cases "char k = 0") auto
  have i: "unicode_IsLetter U (char k) \<Longrightarrow> remaining il < remaining l"
    using readIdentifier_less [of k U] Lexer_ok_char [OF ok] k ri
    by (cases "char k = 0") auto
  have "live (fst (NextToken U l)) \<longrightarrow> remaining (snd (NextToken U l)) < remaining l"
    using c s n i
    unfolding NextToken_def Let_def k_def [symmetric] punctuation_def live_def rs rn ri
    by (simp split: sum.splits)
  with assms(2) show ?thesis by simp
qed

section \<open>Every call of the parser returns\<close>

lemma parseValueF_mono_step:
  assumes "\<And>r. ParseObjectF U n p = Some r \<Longrightarrow> ParseObjectF U m p = Some r"
      and "\<And>r. parseArrayF U n p = Some r \<Longrightarrow> parseArrayF U m p = Some r"
      and "parseValueF U (Suc n) p = Some r"
  shows "parseValueF U (Suc m) p = Some r"
proof -
  consider (scalar) "Type (token p) = TokenString \<or> Type (token p) = TokenNumber
         \<or> Type (token p) = TokenBoolean \<or> Type (token p) = TokenNull"
    | (obj) "Type (token p) = TokenLeftBrace"
    | (arr) "Type (token p) = TokenLeftBracket"
    | (other) "\<not> (Type (token p) = TokenString \<or> Type (token p) = TokenNumber
         \<or> Type (token p) = TokenBoolean \<or> Type (token p) = TokenNull)"
        "Type (token p) \<noteq> TokenLeftBrace" "Type (token p) \<noteq> TokenLeftBracket"
    by blast
  then show ?thesis
  proof cases
    case scalar
    with assms(3) show ?thesis by simp
  next
    case obj
    with assms(1,3) show ?thesis by simp
  next
    case arr
    with assms(2,3) show ?thesis by simp
  next
    case other
    with assms(3) show ?thesis by simp
  qed
qed

lemma parseArrayF_mono_step:
  assumes "\<And>q r. parseArray_loopF U n q = Some r \<Longrightarrow> parseArray_loopF U m q = Some r"
      and "parseArrayF U (Suc n) p = Some r"
  shows "parseArrayF U (Suc m) p = Some r"
proof (cases "Type (token (nextToken U p)) = TokenRightBracket")
  case True
  with assms(2) show ?thesis by (simp add: Let_def)
next
  case False
  with assms show ?thesis by (simp add: Let_def)
qed

lemma parseArray_loopF_mono_step:
  assumes "\<And>q r. parseArray_loopF U n q = Some r \<Longrightarrow> parseArray_loopF U m q = Some r"
      and "\<And>q r. parseValueF U n q = Some r \<Longrightarrow> parseValueF U m q = Some r"
      and "parseArray_loopF U (Suc n) p = Some r"
  shows "parseArray_loopF U (Suc m) p = Some r"
proof (cases "parseValueF U n p")
  case None
  with assms(3) show ?thesis by simp
next
  case (Some x)
  obtain e q where x: "x = (e, q)" by (cases x)
  from assms(2) [OF Some] have m: "parseValueF U m p = Some (e, q)" by (simp add: x)
  show ?thesis
  proof (cases e)
    case (Some a)
    with assms(3) \<open>parseValueF U n p = Some x\<close> x m show ?thesis by auto
  next
    case None
    show ?thesis
    proof (cases "Type (token q) = TokenRightBracket \<or> Type (token q) \<noteq> TokenComma")
      case True
      with assms(3) \<open>parseValueF U n p = Some x\<close> x m None show ?thesis by auto
    next
      case False
      with assms(3) \<open>parseValueF U n p = Some x\<close> x None
      have "parseArray_loopF U n (nextToken U q) = Some r" by simp
      from assms(1) [OF this] False m None show ?thesis by simp
    qed
  qed
qed

lemma ParseObjectF_mono_step:
  assumes "\<And>q r. ParseObject_loopF U n q = Some r \<Longrightarrow> ParseObject_loopF U m q = Some r"
      and "ParseObjectF U (Suc n) p = Some r"
  shows "ParseObjectF U (Suc m) p = Some r"
proof (cases "Type (token p) \<noteq> TokenLeftBrace \<or> Type (token (nextToken U p)) = TokenRightBrace")
  case True
  with assms(2) show ?thesis by (auto simp: Let_def)
next
  case False
  with assms show ?thesis by (simp add: Let_def)
qed

lemma ParseObject_loopF_mono_step:
  assumes "\<And>q r. ParseObject_loopF U n q = Some r \<Longrightarrow> ParseObject_loopF U m q = Some r"
      and "\<And>q r. parseValueF U n q = Some r \<Longrightarrow> parseValueF U m q = Some r"
      and "ParseObject_loopF U (Suc n) p = Some r"
  shows "ParseObject_loopF U (Suc m) p = Some r"
proof (cases "Type (token p) \<noteq> TokenString \<or> Type (token (nextToken U p)) \<noteq> TokenColon")
  case True
  with assms(3) show ?thesis by (auto simp: Let_def)
next
  case head: False
  define p2 where "p2 = nextToken U (nextToken U p)"
  show ?thesis
  proof (cases "parseValueF U n p2")
    case None
    with assms(3) head show ?thesis by (simp add: Let_def p2_def)
  next
    case (Some x)
    obtain e q where x: "x = (e, q)" by (cases x)
    from assms(2) [OF Some] have m: "parseValueF U m p2 = Some (e, q)" by (simp add: x)
    show ?thesis
    proof (cases e)
      case (Some a)
      with assms(3) head \<open>parseValueF U n p2 = Some x\<close> x m show ?thesis
        by (auto simp: Let_def p2_def)
    next
      case None
      show ?thesis
      proof (cases "Type (token q) = TokenRightBrace \<or> Type (token q) \<noteq> TokenComma")
        case True
        with assms(3) head \<open>parseValueF U n p2 = Some x\<close> x m None show ?thesis
          by (auto simp: Let_def p2_def)
      next
        case False
        with assms(3) head \<open>parseValueF U n p2 = Some x\<close> x None
        have "ParseObject_loopF U n (nextToken U q) = Some r" by (simp add: Let_def p2_def)
        from assms(1) [OF this] False m None head show ?thesis by (simp add: Let_def p2_def)
      qed
    qed
  qed
qed

lemma fuel_mono_aux:
  "(\<forall>m p r. n \<le> m \<longrightarrow> parseValueF U n p = Some r \<longrightarrow> parseValueF U m p = Some r) \<and>
   (\<forall>m p r. n \<le> m \<longrightarrow> parseArrayF U n p = Some r \<longrightarrow> parseArrayF U m p = Some r) \<and>
   (\<forall>m p r. n \<le> m \<longrightarrow> parseArray_loopF U n p = Some r \<longrightarrow> parseArray_loopF U m p = Some r) \<and>
   (\<forall>m p r. n \<le> m \<longrightarrow> ParseObjectF U n p = Some r \<longrightarrow> ParseObjectF U m p = Some r) \<and>
   (\<forall>m p r. n \<le> m \<longrightarrow> ParseObject_loopF U n p = Some r \<longrightarrow> ParseObject_loopF U m p = Some r)"
proof (induction n)
  case 0
  show ?case by simp
next
  case (Suc n)
  from Suc have ihV: "\<And>m p r. n \<le> m \<Longrightarrow> parseValueF U n p = Some r \<Longrightarrow> parseValueF U m p = Some r"
    by blast
  from Suc have ihA: "\<And>m p r. n \<le> m \<Longrightarrow> parseArrayF U n p = Some r \<Longrightarrow> parseArrayF U m p = Some r"
    by blast
  from Suc have ihAL: "\<And>m p r. n \<le> m \<Longrightarrow> parseArray_loopF U n p = Some r \<Longrightarrow> parseArray_loopF U m p = Some r"
    by blast
  from Suc have ihO: "\<And>m p r. n \<le> m \<Longrightarrow> ParseObjectF U n p = Some r \<Longrightarrow> ParseObjectF U m p = Some r"
    by blast
  from Suc have ihOL: "\<And>m p r. n \<le> m \<Longrightarrow> ParseObject_loopF U n p = Some r \<Longrightarrow> ParseObject_loopF U m p = Some r"
    by blast
  show ?case
  proof (intro conjI allI impI)
    fix m p r
    assume le: "Suc n \<le> m"
    then obtain m' where m: "m = Suc m'" and le': "n \<le> m'" by (cases m) auto
    {
      assume "parseValueF U (Suc n) p = Some r"
      then show "parseValueF U m p = Some r"
        unfolding m by (rule parseValueF_mono_step [rotated 2]) (erule ihO [OF le'], erule ihA [OF le'])
    }
    {
      assume "parseArrayF U (Suc n) p = Some r"
      then show "parseArrayF U m p = Some r"
        unfolding m by (rule parseArrayF_mono_step [rotated 1]) (erule ihAL [OF le'])
    }
    {
      assume "parseArray_loopF U (Suc n) p = Some r"
      then show "parseArray_loopF U m p = Some r"
        unfolding m by (rule parseArray_loopF_mono_step [rotated 2]) (erule ihAL [OF le'], erule ihV [OF le'])
    }
    {
      assume "ParseObjectF U (Suc n) p = Some r"
      then show "ParseObjectF U m p = Some r"
        unfolding m by (rule ParseObjectF_mono_step [rotated 1]) (erule ihOL [OF le'])
    }
    {
      assume "ParseObject_loopF U (Suc n) p = Some r"
      then show "ParseObject_loopF U m p = Some r"
        unfolding m by (rule ParseObject_loopF_mono_step [rotated 2]) (erule ihOL [OF le'], erule ihV [OF le'])
    }
  qed
qed


lemma fuel_mono:
  assumes "n \<le> m"
  shows "parseValueF U n p = Some r \<Longrightarrow> parseValueF U m p = Some r"
    and "parseArrayF U n p = Some r \<Longrightarrow> parseArrayF U m p = Some r"
    and "parseArray_loopF U n p = Some r \<Longrightarrow> parseArray_loopF U m p = Some r"
    and "ParseObjectF U n p = Some r \<Longrightarrow> ParseObjectF U m p = Some r"
    and "ParseObject_loopF U n p = Some r \<Longrightarrow> ParseObject_loopF U m p = Some r"
  using fuel_mono_aux [of n U] assms by blast+

lemma nextToken_ok: "Parser_ok p \<Longrightarrow> Parser_ok (nextToken U p)"
  using NextToken_ok [of "lexer p" U]
  by (auto simp: Parser_ok_def nextToken_def split: prod.splits)

lemma nextToken_weight:
  assumes "Parser_ok p" and "live (token p)"
  shows "weight (nextToken U p) < weight p"
proof -
  obtain tok l where nt: "NextToken U (lexer p) = (tok, l)" by (cases "NextToken U (lexer p)")
  have le: "remaining l \<le> remaining (lexer p)" using NextToken_le [of U "lexer p"] nt by simp
  have less: "live tok \<Longrightarrow> remaining l < remaining (lexer p)"
    using NextToken_less [of "lexer p" U] assms(1) nt by (simp add: Parser_ok_def)
  show ?thesis
    using le less assms(2) by (cases "live tok") (simp_all add: weight_def nextToken_def nt)
qed

lemma returns_Some [simp]: "returns p (Some (e, p')) = (Parser_ok p' \<and> weight p' \<le> weight p)"
  by (simp add: returns_def)

lemma returns_None [simp]: "\<not> returns p None"
  by (simp add: returns_def)

lemma returns_le: "returns q res \<Longrightarrow> weight q \<le> weight p \<Longrightarrow> returns p res"
  by (auto simp: returns_def split: option.splits)

lemma live_Type:
  "Type t = TokenString \<Longrightarrow> live t" "Type t = TokenNumber \<Longrightarrow> live t"
  "Type t = TokenBoolean \<Longrightarrow> live t" "Type t = TokenNull \<Longrightarrow> live t"
  "Type t = TokenLeftBrace \<Longrightarrow> live t" "Type t = TokenRightBrace \<Longrightarrow> live t"
  "Type t = TokenLeftBracket \<Longrightarrow> live t" "Type t = TokenRightBracket \<Longrightarrow> live t"
  "Type t = TokenColon \<Longrightarrow> live t" "Type t = TokenComma \<Longrightarrow> live t"
  by (simp_all add: live_def)

lemma advance:
  assumes "Parser_ok p" and "live (token p)"
  shows "Parser_ok (nextToken U p)" and "weight (nextToken U p) < weight p"
  using assms nextToken_ok nextToken_weight by blast+

lemma parseValueF_total_step:
  assumes O: "\<And>q. Parser_ok q \<Longrightarrow> 3 * weight q + 1 \<le> n \<Longrightarrow> returns q (ParseObjectF U n q)"
      and A: "\<And>q. Parser_ok q \<Longrightarrow> Type (token q) = TokenLeftBracket \<Longrightarrow> 3 * weight q + 1 \<le> n
                \<Longrightarrow> returns q (parseArrayF U n q)"
      and ok: "Parser_ok p" and n: "3 * weight p + 2 \<le> Suc n"
  shows "returns p (parseValueF U (Suc n) p)"
proof -
  consider (scalar) "Type (token p) = TokenString \<or> Type (token p) = TokenNumber
         \<or> Type (token p) = TokenBoolean \<or> Type (token p) = TokenNull"
    | (obj) "Type (token p) = TokenLeftBrace"
    | (arr) "Type (token p) = TokenLeftBracket"
    | (other) "\<not> (Type (token p) = TokenString \<or> Type (token p) = TokenNumber
         \<or> Type (token p) = TokenBoolean \<or> Type (token p) = TokenNull)"
        "Type (token p) \<noteq> TokenLeftBrace" "Type (token p) \<noteq> TokenLeftBracket"
    by blast
  then show ?thesis
  proof cases
    case scalar
    then have "live (token p)" by (auto simp: live_def)
    from advance [OF ok this, of U] scalar show ?thesis by simp
  next
    case obj
    with O [OF ok] n show ?thesis by simp
  next
    case arr
    with A [OF ok] n show ?thesis by simp
  next
    case other
    with ok show ?thesis by simp
  qed
qed

lemma parseArrayF_total_step:
  assumes AL: "\<And>q. Parser_ok q \<Longrightarrow> 3 * weight q + 3 \<le> n \<Longrightarrow> returns q (parseArray_loopF U n q)"
      and ok: "Parser_ok p" and tok: "Type (token p) = TokenLeftBracket"
      and n: "3 * weight p + 1 \<le> Suc n"
  shows "returns p (parseArrayF U (Suc n) p)"
proof -
  define p1 where "p1 = nextToken U p"
  have p1: "Parser_ok p1" "weight p1 < weight p"
    using advance [OF ok live_Type(7) [OF tok], of U] by (simp_all add: p1_def)
  show ?thesis
  proof (cases "Type (token p1) = TokenRightBracket")
    case True
    from advance [OF p1(1) live_Type(8) [OF True], of U] p1 True show ?thesis
      by (simp add: Let_def p1_def [symmetric])
  next
    case False
    have "returns p1 (parseArray_loopF U n p1)" using AL [OF p1(1)] p1(2) n by simp
    then have "returns p (parseArray_loopF U n p1)" using p1(2) by (simp add: returns_le)
    with False show ?thesis by (simp add: Let_def p1_def [symmetric])
  qed
qed

lemma parseArray_loopF_total_step:
  assumes AL: "\<And>q. Parser_ok q \<Longrightarrow> 3 * weight q + 3 \<le> n \<Longrightarrow> returns q (parseArray_loopF U n q)"
      and V: "\<And>q. Parser_ok q \<Longrightarrow> 3 * weight q + 2 \<le> n \<Longrightarrow> returns q (parseValueF U n q)"
      and ok: "Parser_ok p" and n: "3 * weight p + 3 \<le> Suc n"
  shows "returns p (parseArray_loopF U (Suc n) p)"
proof -
  have "returns p (parseValueF U n p)" using V [OF ok] n by simp
  then obtain e q where v: "parseValueF U n p = Some (e, q)" and q: "Parser_ok q" "weight q \<le> weight p"
    by (auto simp: returns_def split: option.splits)
  show ?thesis
  proof (cases e)
    case (Some a)
    with v q show ?thesis by simp
  next
    case None
    show ?thesis
    proof (cases "Type (token q) = TokenRightBracket")
      case True
      from advance [OF q(1) live_Type(8) [OF True], of U] q v None True show ?thesis by simp
    next
      case rb: False
      show ?thesis
      proof (cases "Type (token q) = TokenComma")
        case False
        with rb v None q show ?thesis by simp
      next
        case True
        define q1 where "q1 = nextToken U q"
        have q1: "Parser_ok q1" "weight q1 < weight q"
          using advance [OF q(1) live_Type(10) [OF True], of U] by (simp_all add: q1_def)
        have "returns q1 (parseArray_loopF U n q1)" using AL [OF q1(1)] q1(2) q(2) n by simp
        then have "returns p (parseArray_loopF U n q1)" using q1(2) q(2) by (simp add: returns_le)
        with rb True v None show ?thesis by (simp add: q1_def [symmetric])
      qed
    qed
  qed
qed

lemma ParseObjectF_total_step:
  assumes OL: "\<And>q. Parser_ok q \<Longrightarrow> 3 * weight q + 3 \<le> n \<Longrightarrow> returns q (ParseObject_loopF U n q)"
      and ok: "Parser_ok p" and n: "3 * weight p + 1 \<le> Suc n"
  shows "returns p (ParseObjectF U (Suc n) p)"
proof (cases "Type (token p) = TokenLeftBrace")
  case False
  with ok show ?thesis by simp
next
  case tok: True
  define p1 where "p1 = nextToken U p"
  have p1: "Parser_ok p1" "weight p1 < weight p"
    using advance [OF ok live_Type(5) [OF tok], of U] by (simp_all add: p1_def)
  show ?thesis
  proof (cases "Type (token p1) = TokenRightBrace")
    case True
    from advance [OF p1(1) live_Type(6) [OF True], of U] p1 True tok show ?thesis
      by (simp add: Let_def p1_def [symmetric])
  next
    case False
    have "returns p1 (ParseObject_loopF U n p1)" using OL [OF p1(1)] p1(2) n by simp
    then have "returns p (ParseObject_loopF U n p1)" using p1(2) by (simp add: returns_le)
    with False tok show ?thesis by (simp add: Let_def p1_def [symmetric])
  qed
qed

lemma ParseObject_loopF_total_step:
  assumes OL: "\<And>q. Parser_ok q \<Longrightarrow> 3 * weight q + 3 \<le> n \<Longrightarrow> returns q (ParseObject_loopF U n q)"
      and V: "\<And>q. Parser_ok q \<Longrightarrow> 3 * weight q + 2 \<le> n \<Longrightarrow> returns q (parseValueF U n q)"
      and ok: "Parser_ok p" and n: "3 * weight p + 3 \<le> Suc n"
  shows "returns p (ParseObject_loopF U (Suc n) p)"
proof (cases "Type (token p) = TokenString")
  case False
  with ok show ?thesis by simp
next
  case key: True
  define p1 where "p1 = nextToken U p"
  have p1: "Parser_ok p1" "weight p1 < weight p"
    using advance [OF ok live_Type(1) [OF key], of U] by (simp_all add: p1_def)
  show ?thesis
  proof (cases "Type (token p1) = TokenColon")
    case False
    with key p1 show ?thesis by (simp add: Let_def p1_def [symmetric])
  next
    case colon: True
    define p2 where "p2 = nextToken U p1"
    have p2: "Parser_ok p2" "weight p2 < weight p1"
      using advance [OF p1(1) live_Type(9) [OF colon], of U] by (simp_all add: p2_def)
    have "returns p2 (parseValueF U n p2)" using V [OF p2(1)] p2(2) p1(2) n by simp
    then obtain e q where v: "parseValueF U n p2 = Some (e, q)"
      and q: "Parser_ok q" "weight q \<le> weight p2"
      by (auto simp: returns_def split: option.splits)
    note unfold = Let_def p1_def [symmetric] p2_def [symmetric]
    show ?thesis
    proof (cases e)
      case (Some a)
      with v q p1 p2 key colon show ?thesis by (simp add: unfold)
    next
      case None
      show ?thesis
      proof (cases "Type (token q) = TokenRightBrace")
        case True
        from advance [OF q(1) live_Type(6) [OF True], of U] q p1 p2 v None True key colon
        show ?thesis by (simp add: unfold)
      next
        case rb: False
        show ?thesis
        proof (cases "Type (token q) = TokenComma")
          case False
          with rb v None q p1 p2 key colon show ?thesis by (simp add: unfold)
        next
          case True
          define q1 where "q1 = nextToken U q"
          have q1: "Parser_ok q1" "weight q1 < weight q"
            using advance [OF q(1) live_Type(10) [OF True], of U] by (simp_all add: q1_def)
          have "returns q1 (ParseObject_loopF U n q1)"
            using OL [OF q1(1)] q1(2) q(2) p2(2) p1(2) n by simp
          then have "returns p (ParseObject_loopF U n q1)"
            using q1(2) q(2) p2(2) p1(2) by (simp add: returns_le)
          with rb True v None key colon show ?thesis by (simp add: unfold q1_def [symmetric])
        qed
      qed
    qed
  qed
qed

lemma total_aux:
  "(\<forall>p. Parser_ok p \<longrightarrow> 3 * weight p + 2 \<le> n \<longrightarrow> returns p (parseValueF U n p)) \<and>
   (\<forall>p. Parser_ok p \<longrightarrow> Type (token p) = TokenLeftBracket \<longrightarrow> 3 * weight p + 1 \<le> n
         \<longrightarrow> returns p (parseArrayF U n p)) \<and>
   (\<forall>p. Parser_ok p \<longrightarrow> 3 * weight p + 3 \<le> n \<longrightarrow> returns p (parseArray_loopF U n p)) \<and>
   (\<forall>p. Parser_ok p \<longrightarrow> 3 * weight p + 1 \<le> n \<longrightarrow> returns p (ParseObjectF U n p)) \<and>
   (\<forall>p. Parser_ok p \<longrightarrow> 3 * weight p + 3 \<le> n \<longrightarrow> returns p (ParseObject_loopF U n p))"
proof (induction n)
  case 0
  show ?case by simp
next
  case (Suc n)
  from Suc have V: "\<And>q. Parser_ok q \<Longrightarrow> 3 * weight q + 2 \<le> n \<Longrightarrow> returns q (parseValueF U n q)"
    by blast
  from Suc have A: "\<And>q. Parser_ok q \<Longrightarrow> Type (token q) = TokenLeftBracket \<Longrightarrow> 3 * weight q + 1 \<le> n
                \<Longrightarrow> returns q (parseArrayF U n q)"
    by blast
  from Suc have AL: "\<And>q. Parser_ok q \<Longrightarrow> 3 * weight q + 3 \<le> n \<Longrightarrow> returns q (parseArray_loopF U n q)"
    by blast
  from Suc have O: "\<And>q. Parser_ok q \<Longrightarrow> 3 * weight q + 1 \<le> n \<Longrightarrow> returns q (ParseObjectF U n q)"
    by blast
  from Suc have OL: "\<And>q. Parser_ok q \<Longrightarrow> 3 * weight q + 3 \<le> n \<Longrightarrow> returns q (ParseObject_loopF U n q)"
    by blast
  show ?case
  proof (intro conjI allI impI)
    fix p
    assume ok: "Parser_ok p"
    {
      assume "3 * weight p + 2 \<le> Suc n"
      with ok show "returns p (parseValueF U (Suc n) p)"
        by (intro parseValueF_total_step O A)
    }
    {
      assume "Type (token p) = TokenLeftBracket" "3 * weight p + 1 \<le> Suc n"
      with ok show "returns p (parseArrayF U (Suc n) p)"
        by (intro parseArrayF_total_step AL)
    }
    {
      assume "3 * weight p + 3 \<le> Suc n"
      with ok show "returns p (parseArray_loopF U (Suc n) p)"
        by (intro parseArray_loopF_total_step AL V)
    }
    {
      assume "3 * weight p + 1 \<le> Suc n"
      with ok show "returns p (ParseObjectF U (Suc n) p)"
        by (intro ParseObjectF_total_step OL)
    }
    {
      assume "3 * weight p + 3 \<le> Suc n"
      with ok show "returns p (ParseObject_loopF U (Suc n) p)"
        by (intro ParseObject_loopF_total_step OL V)
    }
  qed
qed

lemma total:
  assumes "Parser_ok p"
  shows "returns p (parseValue U p)"
    and "Type (token p) = TokenLeftBracket \<Longrightarrow> returns p (parseArray U p)"
    and "returns p (ParseObject U p)"
  using total_aux [of "fuel p" U] assms
  by (simp_all add: parseValue_def parseArray_def ParseObject_def fuel_def)

lemma returns_SomeE: "returns p res \<Longrightarrow> \<exists>e p'. res = Some (e, p')"
  by (auto simp: returns_def split: option.splits)

lemma ParseObject_fuel:
  assumes "Parser_ok p" and "ParseObjectF U n p = Some r"
  shows "ParseObject U p = Some r"
proof -
  from total(3) [OF assms(1), of U] obtain r' where r': "ParseObjectF U (fuel p) p = Some r'"
    by (auto simp: ParseObject_def dest: returns_SomeE)
  have "ParseObjectF U (max n (fuel p)) p = Some r"
    by (rule fuel_mono(4) [OF _ assms(2)]) simp
  moreover have "ParseObjectF U (max n (fuel p)) p = Some r'"
    by (rule fuel_mono(4) [OF _ r']) simp
  ultimately show ?thesis using r' by (simp add: ParseObject_def)
qed

lemma parseValue_fuel:
  assumes "Parser_ok p" and "parseValueF U n p = Some r"
  shows "parseValue U p = Some r"
proof -
  from total(1) [OF assms(1), of U] obtain r' where r': "parseValueF U (fuel p) p = Some r'"
    by (auto simp: parseValue_def dest: returns_SomeE)
  have "parseValueF U (max n (fuel p)) p = Some r"
    by (rule fuel_mono(1) [OF _ assms(2)]) simp
  moreover have "parseValueF U (max n (fuel p)) p = Some r'"
    by (rule fuel_mono(1) [OF _ r']) simp
  ultimately show ?thesis using r' by (simp add: parseValue_def)
qed

lemma Parser_ok_NewParser: "Parser_ok (NewParser U (NewLexer input))"
  unfolding NewParser_def
  by (rule nextToken_ok) (simp add: Parser_ok_def Lexer_ok_NewLexer)

lemma validate_returns: "\<exists>res. validate U input = Some res"
  using total(3) [OF Parser_ok_NewParser, of U input U]
  by (auto simp: validate_def dest: returns_SomeE)


lemma nextToken_lex_at: "lexer p = lex_at f t \<Longrightarrow> nextToken U p = parser_at U f t"
  by (simp add: nextToken_def parser_at_def NewParser_def split: prod.splits)

lemma parser_at_eval:
  "parser_at U f t = (case NextToken U (lex_at f t) of (tok, l) \<Rightarrow> \<lparr>lexer = l, token = tok\<rparr>)"
  by (simp add: parser_at_def NewParser_def nextToken_def)

lemma NewParser_text: "NewParser U (NewLexer (text_stream t)) = parser_at U EOF t"
  by (simp add: parser_at_def text_stream_def NewLexer_lex_at)

lemma readString_loop_Nil: "readString_loop acc (lex_at f []) = (Inr acc, lex_at f [])"
  by (subst readString_loop.simps) simp

lemma readString_loop_Cons:
  "readString_loop acc (lex_at f (c # t)) =
     (if c = 34 then (Inr acc, lex_at f (c # t))
      else if c = 92 then
        (case escape (char (lex_at f t)) of
           None \<Rightarrow> (Inl (runes ''invalid escape sequence: '' @ [92, char (lex_at f t)]), lex_at f t)
         | Some v \<Rightarrow> readString_loop (acc @ [v]) (lex_at f (tl t)))
      else if c < 32 then
        (Inl (runes ''invalid control character in string: '' @ decimal c), lex_at f (c # t))
      else readString_loop (acc @ [c]) (lex_at f t))"
  by (subst readString_loop.simps) (simp add: Let_def split: option.splits)

lemmas lex_simps =
  NextToken_def Let_def skipWhitespace_lex_at punctuation_def readString_def
  readString_loop_Nil readString_loop_Cons escape_def
  readNumber_def number_sign_def number_fraction_def number_exponent_def exponent_sign_def
  readDigits_lex_at readIdentifier_def readIdentifier_lex_at ident_char_def
  is_space_def unicode_IsDigit_def unicode_IsLetter_def runes_def

lemma NextToken_EOF:
  assumes "err l = Some EOF" and "char l = 0"
  shows "NextToken U l = (\<lparr>Type = TokenEOF, Literal = []\<rparr>, l)"
proof -
  have "skipWhitespace l = l" using assms(2) by (subst skipWhitespace.simps) simp
  with assms(1) show ?thesis by (simp add: NextToken_def)
qed

lemma readChar_exhausted:
  assumes "pending (reader l0) = []"
  shows "readChar l0 = l0\<lparr>char := 0, err := Some (final (reader l0))\<rparr>"
  using assms by (simp add: readChar_def ReadRune_def)

lemma validJSON_no_fault:
  assumes "fs filename = Some f" and "no_fault f"
  shows "validJSON fs filename =
           (bytes f \<noteq> [] \<and> hd (bytes f) = CHR ''{'' \<and> last (bytes f) = CHR ''}'', None)"
proof (cases "bytes f")
  case Nil
  with assms show ?thesis
    by (simp add: validJSON_def os_Open_def Stat_Size_def no_fault_def)
next
  case (Cons b bs)
  then have "last (bytes f) = bytes f ! (length (bytes f) - 1)"
    by (simp add: last_conv_nth)
  with assms Cons show ?thesis
    by (simp add: validJSON_def os_Open_def Stat_Size_def Read1_def Seek_def no_fault_def)
qed

section \<open>The grammar of the specification\<close>

definition white :: "rune list \<Rightarrow> bool" where
  "white w = list_all is_space w"

definition json_escapes :: "(rune \<times> rune) list" where
  "json_escapes =
     [(34, 34), (92, 92), (47, 47), (98, 8), (102, 12), (110, 10), (114, 13), (116, 9)]"

inductive string_body :: "rune list \<Rightarrow> gostring \<Rightarrow> bool" where
  sb_end: "string_body [] []"
| sb_raw: "32 \<le> c \<Longrightarrow> c \<noteq> 34 \<Longrightarrow> c \<noteq> 92 \<Longrightarrow> string_body s d \<Longrightarrow> string_body (c # s) (c # d)"
| sb_esc: "map_of json_escapes c = Some v \<Longrightarrow> string_body s d \<Longrightarrow> string_body (92 # c # s) (v # d)"

definition is_digit :: "rune \<Rightarrow> bool" where
  "is_digit c = (48 \<le> c \<and> c \<le> 57)"

definition digits :: "rune list \<Rightarrow> bool" where
  "digits ds = (ds \<noteq> [] \<and> list_all is_digit ds)"

inductive fraction :: "rune list \<Rightarrow> bool" where
  no_fraction: "fraction []"
| some_fraction: "digits ds \<Longrightarrow> fraction (46 # ds)"

inductive exponent :: "rune list \<Rightarrow> bool" where
  no_exponent: "exponent []"
| some_exponent: "e = 101 \<or> e = 69 \<Longrightarrow> sg = [] \<or> sg = [43] \<or> sg = [45] \<Longrightarrow> digits ds
    \<Longrightarrow> exponent (e # sg @ ds)"

inductive number_text :: "rune list \<Rightarrow> bool" where
  number: "sg = [] \<or> sg = [45] \<Longrightarrow> digits ip \<Longrightarrow> fraction fp \<Longrightarrow> exponent ep
    \<Longrightarrow> number_text (sg @ ip @ fp @ ep)"

definition delimited :: "rune list \<Rightarrow> bool" where
  "delimited t = (case t of [] \<Rightarrow> True | c # _ \<Rightarrow> is_space c \<or> c = 44 \<or> c = 125 \<or> c = 93)"

lemma escape_json: "escape c = map_of json_escapes c"
  by (simp add: escape_def json_escapes_def)

lemma dropWhile_white: "white w \<Longrightarrow> dropWhile is_space (w @ t) = dropWhile is_space t"
  by (induction w) (simp_all add: white_def)

lemma NextToken_white: "white w \<Longrightarrow> NextToken U (lex_at f (w @ t)) = NextToken U (lex_at f t)"
  by (simp add: NextToken_def skipWhitespace_lex_at dropWhile_white)

lemma parser_at_white: "white w \<Longrightarrow> parser_at U f (w @ t) = parser_at U f t"
  by (simp add: parser_at_eval NextToken_white)

lemma parser_at_punctuation:
  "parser_at U f (123 # t) = \<lparr>lexer = lex_at f t, token = \<lparr>Type = TokenLeftBrace, Literal = [123]\<rparr>\<rparr>"
  "parser_at U f (125 # t) = \<lparr>lexer = lex_at f t, token = \<lparr>Type = TokenRightBrace, Literal = [125]\<rparr>\<rparr>"
  "parser_at U f (91 # t) = \<lparr>lexer = lex_at f t, token = \<lparr>Type = TokenLeftBracket, Literal = [91]\<rparr>\<rparr>"
  "parser_at U f (93 # t) = \<lparr>lexer = lex_at f t, token = \<lparr>Type = TokenRightBracket, Literal = [93]\<rparr>\<rparr>"
  "parser_at U f (58 # t) = \<lparr>lexer = lex_at f t, token = \<lparr>Type = TokenColon, Literal = [58]\<rparr>\<rparr>"
  "parser_at U f (44 # t) = \<lparr>lexer = lex_at f t, token = \<lparr>Type = TokenComma, Literal = [44]\<rparr>\<rparr>"
  by (simp_all add: parser_at_eval lex_simps)

lemma readString_loop_body:
  "string_body s d \<Longrightarrow>
     readString_loop acc (lex_at f (s @ 34 # t)) = (Inr (acc @ d), lex_at f (34 # t))"
proof (induction arbitrary: acc rule: string_body.induct)
  case sb_end
  show ?case by (simp add: readString_loop_Cons)
next
  case (sb_raw c s d)
  then show ?case by (simp add: readString_loop_Cons)
next
  case (sb_esc c v s d)
  then show ?case by (simp add: readString_loop_Cons escape_json)
qed

lemma NextToken_string:
  assumes "string_body s d"
  shows "NextToken U (lex_at f (34 # s @ 34 # t)) = (\<lparr>Type = TokenString, Literal = d\<rparr>, lex_at f t)"
  using readString_loop_body [OF assms, of "[]" f t]
  by (simp add: NextToken_def skipWhitespace_lex_at is_space_def readString_def)

lemma parser_at_string:
  "string_body s d \<Longrightarrow>
     parser_at U f (34 # s @ 34 # t) = \<lparr>lexer = lex_at f t, token = \<lparr>Type = TokenString, Literal = d\<rparr>\<rparr>"
  by (simp add: parser_at_eval NextToken_string)


text \<open>Where a run of digits ends: at the end of the text or before a rune that is no digit.\<close>

definition starts :: "(rune \<Rightarrow> bool) \<Rightarrow> rune list \<Rightarrow> bool" where
  "starts P t = (case t of [] \<Rightarrow> False | c # _ \<Rightarrow> P c)"

lemma starts_simps [simp]: "starts P [] = False" "starts P (c # t) = P c"
  by (simp_all add: starts_def)

lemma is_digit_unicode: "is_digit c \<Longrightarrow> unicode_IsDigit U c"
  by (simp add: is_digit_def unicode_IsDigit_def)

lemma readDigits_run:
  assumes "list_all is_digit ds" and "\<not> starts (unicode_IsDigit U) t"
  shows "readDigits U acc (lex_at f (ds @ t)) = (acc @ ds, lex_at f t)"
proof -
  have "takeWhile (unicode_IsDigit U) t = []" "dropWhile (unicode_IsDigit U) t = t"
    using assms(2) by (cases t; simp)+
  moreover have "list_all (unicode_IsDigit U) ds"
    using assms(1) by (induction ds) (simp_all add: is_digit_unicode)
  ultimately show ?thesis
    by (simp add: readDigits_lex_at list_all_iff)
qed

lemma delimited_not_starts:
  assumes "delimited t"
  shows "\<not> starts (unicode_IsDigit U) t" and "\<not> starts (\<lambda>c. c = 46) t"
    and "\<not> starts (\<lambda>c. c = 101 \<or> c = 69) t" and "\<not> starts (ident_char U) t"
  using assms
  by (cases t; auto simp: delimited_def is_space_def unicode_IsDigit_def unicode_IsLetter_def
        ident_char_def)+

lemma char_lex_at_starts: "(char (lex_at f t) = c \<and> c \<noteq> 0) \<Longrightarrow> starts (\<lambda>x. x = c) t"
  by (cases t) auto

lemma number_fraction_run:
  assumes "fraction fp" and "\<not> starts (unicode_IsDigit U) t" and "\<not> starts (\<lambda>c. c = 46) t"
  shows "number_fraction U acc (lex_at f (fp @ t)) = (acc @ fp, lex_at f t)"
  using assms(1)
proof cases
  case no_fraction
  with assms(3) show ?thesis by (cases t) (simp_all add: number_fraction_def)
next
  case (some_fraction ds)
  with assms(2) readDigits_run [of ds U t "acc @ [46]" f] show ?thesis
    by (simp add: number_fraction_def digits_def)
qed

lemma number_exponent_run:
  assumes "exponent ep" and "\<not> starts (unicode_IsDigit U) t"
    and "\<not> starts (\<lambda>c. c = 101 \<or> c = 69) t"
  shows "number_exponent U acc (lex_at f (ep @ t)) = (acc @ ep, lex_at f t)"
  using assms(1)
proof cases
  case no_exponent
  with assms(3) show ?thesis by (cases t) (simp_all add: number_exponent_def)
next
  case (some_exponent e sg ds)
  from some_exponent(4) obtain d ds' where ds: "ds = d # ds'" "is_digit d"
    by (cases ds) (auto simp: digits_def)
  have run: "\<And>acc. readDigits U acc (lex_at f (ds @ t)) = (acc @ ds, lex_at f t)"
    using readDigits_run [of ds U t _ f] some_exponent(4) assms(2) by (simp add: digits_def)
  from some_exponent(3) show ?thesis
  proof (elim disjE)
    assume "sg = []"
    with some_exponent(1,2) ds run [of "acc @ [e]"] show ?thesis
      by (auto simp: number_exponent_def exponent_sign_def is_digit_def)
  next
    assume "sg = [43]"
    with some_exponent(1,2) run [of "acc @ [e, 43]"] show ?thesis
      by (auto simp: number_exponent_def exponent_sign_def)
  next
    assume "sg = [45]"
    with some_exponent(1,2) run [of "acc @ [e, 45]"] show ?thesis
      by (auto simp: number_exponent_def exponent_sign_def)
  qed
qed

lemma fraction_starts: "fraction fp \<Longrightarrow> fp \<noteq> [] \<Longrightarrow> hd fp = 46"
  by (auto elim: fraction.cases)

lemma exponent_starts: "exponent ep \<Longrightarrow> ep \<noteq> [] \<Longrightarrow> hd ep = 101 \<or> hd ep = 69"
  by (auto elim: exponent.cases)

lemma starts_append: "starts P (xs @ t) = (if xs = [] then starts P t else P (hd xs))"
  by (cases xs) simp_all

lemma readNumber_text:
  assumes "number_text n" and "delimited t"
  shows "readNumber U (lex_at f (n @ t)) = (n, lex_at f t)"
  using assms(1)
proof cases
  case (number sg ip fp ep)
  note d = delimited_not_starts [OF assms(2)]
  from number(3) obtain c ip' where ip: "ip = c # ip'" "is_digit c"
    by (cases ip) (auto simp: digits_def)
  have e: "number_exponent U acc (lex_at f (ep @ t)) = (acc @ ep, lex_at f t)" for acc
    using number_exponent_run [OF number(5) d(1) d(3)] .
  have et: "\<not> starts (unicode_IsDigit U) (ep @ t)" "\<not> starts (\<lambda>c. c = 46) (ep @ t)"
    using exponent_starts [OF number(5)] d
    by (auto simp: starts_append unicode_IsDigit_def)
  have fr: "number_fraction U acc (lex_at f (fp @ ep @ t)) = (acc @ fp, lex_at f (ep @ t))" for acc
    using number_fraction_run [OF number(4) et] .
  have ft: "\<not> starts (unicode_IsDigit U) (fp @ ep @ t)"
    using fraction_starts [OF number(4)] et(1)
    by (auto simp: starts_append unicode_IsDigit_def)
  have dg: "readDigits U acc (lex_at f (ip @ fp @ ep @ t)) = (acc @ ip, lex_at f (fp @ ep @ t))" for acc
    using readDigits_run [of ip U "fp @ ep @ t" acc f] number(3) ft by (simp add: digits_def)
  from number(2) show ?thesis
  proof
    assume "sg = []"
    moreover have "number_sign [] (lex_at f (ip @ fp @ ep @ t)) = ([], lex_at f (ip @ fp @ ep @ t))"
      using ip by (auto simp: number_sign_def is_digit_def)
    ultimately show ?thesis using number(1) dg fr e by (simp add: readNumber_def)
  next
    assume "sg = [45]"
    moreover have "number_sign [] (lex_at f (45 # ip @ fp @ ep @ t)) = ([45], lex_at f (ip @ fp @ ep @ t))"
      by (simp add: number_sign_def)
    ultimately show ?thesis using number(1) dg fr e by (simp add: readNumber_def)
  qed
qed

lemma number_text_head:
  assumes "number_text n"
  obtains c n' where "n = c # n'" and "is_digit c \<or> c = 45"
  using assms
proof cases
  case (number sg ip fp ep)
  from number(3) obtain c ip' where "ip = c # ip'" "is_digit c"
    by (cases ip) (auto simp: digits_def)
  with number(1,2) that show ?thesis by auto
qed

lemma NextToken_number:
  assumes "number_text n" and "delimited t"
  shows "NextToken U (lex_at f (n @ t)) = (\<lparr>Type = TokenNumber, Literal = n\<rparr>, lex_at f t)"
proof -
  from assms(1) obtain c n' where n: "n = c # n'" and c: "is_digit c \<or> c = 45"
    by (rule number_text_head)
  have "readNumber U (lex_at f (c # n' @ t)) = (n, lex_at f t)"
    using readNumber_text [OF assms, of U f] n by simp
  with c show ?thesis
    unfolding n
    by (auto simp: NextToken_def skipWhitespace_lex_at is_space_def is_digit_def
          unicode_IsDigit_def)
qed

lemma parser_at_number:
  "number_text n \<Longrightarrow> delimited t \<Longrightarrow>
     parser_at U f (n @ t) = \<lparr>lexer = lex_at f t, token = \<lparr>Type = TokenNumber, Literal = n\<rparr>\<rparr>"
  by (simp add: parser_at_eval NextToken_number)

lemma takeWhile_delimited:
  "delimited t \<Longrightarrow> takeWhile (ident_char U) t = []"
  "delimited t \<Longrightarrow> dropWhile (ident_char U) t = t"
  using delimited_not_starts(4) [of t U] by (cases t; simp)+

lemma parser_at_literal:
  assumes "delimited t"
  shows "parser_at U f (runes ''true'' @ t)
           = \<lparr>lexer = lex_at f t, token = \<lparr>Type = TokenBoolean, Literal = runes ''true''\<rparr>\<rparr>"
    and "parser_at U f (runes ''false'' @ t)
           = \<lparr>lexer = lex_at f t, token = \<lparr>Type = TokenBoolean, Literal = runes ''false''\<rparr>\<rparr>"
    and "parser_at U f (runes ''null'' @ t)
           = \<lparr>lexer = lex_at f t, token = \<lparr>Type = TokenNull, Literal = runes ''null''\<rparr>\<rparr>"
  using takeWhile_delimited [OF assms, of U]
  by (simp_all add: parser_at_eval NextToken_def skipWhitespace_lex_at punctuation_def
        readIdentifier_def readIdentifier_lex_at is_space_def unicode_IsDigit_def
        unicode_IsLetter_def runes_def ident_char_def)


text \<open>
  The grammar of section 4.2 of the specification over the runes of the input, for a
  language \<open>S\<close> of string bodies and a language \<open>N\<close> of numbers; insignificant whitespace
  may stand around every token.
\<close>

inductive json_value :: "(rune list \<Rightarrow> bool) \<Rightarrow> (rune list \<Rightarrow> bool) \<Rightarrow> rune list \<Rightarrow> bool"
  and json_object :: "(rune list \<Rightarrow> bool) \<Rightarrow> (rune list \<Rightarrow> bool) \<Rightarrow> rune list \<Rightarrow> bool"
  and json_array :: "(rune list \<Rightarrow> bool) \<Rightarrow> (rune list \<Rightarrow> bool) \<Rightarrow> rune list \<Rightarrow> bool"
  and json_members :: "(rune list \<Rightarrow> bool) \<Rightarrow> (rune list \<Rightarrow> bool) \<Rightarrow> rune list \<Rightarrow> bool"
  and json_elements :: "(rune list \<Rightarrow> bool) \<Rightarrow> (rune list \<Rightarrow> bool) \<Rightarrow> rune list \<Rightarrow> bool"
  for S :: "rune list \<Rightarrow> bool" and N :: "rune list \<Rightarrow> bool"
where
  v_string: "S s \<Longrightarrow> json_value S N (34 # s @ [34])"
| v_number: "N n \<Longrightarrow> json_value S N n"
| v_true: "json_value S N (runes ''true'')"
| v_false: "json_value S N (runes ''false'')"
| v_null: "json_value S N (runes ''null'')"
| v_object: "json_object S N ob \<Longrightarrow> json_value S N ob"
| v_array: "json_array S N ar \<Longrightarrow> json_value S N ar"
| empty_object: "white w \<Longrightarrow> json_object S N (123 # w @ [125])"
| object: "json_members S N ms \<Longrightarrow> json_object S N (123 # ms @ [125])"
| empty_array: "white w \<Longrightarrow> json_array S N (91 # w @ [93])"
| array: "json_elements S N es \<Longrightarrow> json_array S N (91 # es @ [93])"
| last_member:
    "white w1 \<Longrightarrow> S k \<Longrightarrow> white w2 \<Longrightarrow> white w3 \<Longrightarrow> json_value S N v \<Longrightarrow> white w4
     \<Longrightarrow> json_members S N (w1 @ 34 # k @ 34 # w2 @ 58 # w3 @ v @ w4)"
| more_members:
    "white w1 \<Longrightarrow> S k \<Longrightarrow> white w2 \<Longrightarrow> white w3 \<Longrightarrow> json_value S N v \<Longrightarrow> white w4
     \<Longrightarrow> json_members S N ms
     \<Longrightarrow> json_members S N (w1 @ 34 # k @ 34 # w2 @ 58 # w3 @ v @ w4 @ 44 # ms)"
| last_element:
    "white w1 \<Longrightarrow> json_value S N v \<Longrightarrow> white w2 \<Longrightarrow> json_elements S N (w1 @ v @ w2)"
| more_elements:
    "white w1 \<Longrightarrow> json_value S N v \<Longrightarrow> white w2 \<Longrightarrow> json_elements S N es
     \<Longrightarrow> json_elements S N (w1 @ v @ w2 @ 44 # es)"

definition json_document :: "(rune list \<Rightarrow> bool) \<Rightarrow> (rune list \<Rightarrow> bool) \<Rightarrow> rune list \<Rightarrow> bool" where
  "json_document S N t =
     (\<exists>w1 ob w2. white w1 \<and> json_object S N ob \<and> white w2 \<and> t = w1 @ ob @ w2)"

definition supported_string :: "rune list \<Rightarrow> bool" where
  "supported_string s = (\<exists>d. string_body s d)"

lemma nextToken_at [simp]:
  "nextToken U \<lparr>lexer = lex_at f t, token = tok\<rparr> = parser_at U f t"
  by (simp add: nextToken_lex_at)

lemma delimited_simps [simp]:
  "delimited (44 # t)" "delimited (125 # t)" "delimited (93 # t)" "delimited []"
  by (simp_all add: delimited_def)

lemma delimited_white: "white w \<Longrightarrow> delimited t \<Longrightarrow> delimited (w @ t)"
  by (cases w) (simp_all add: delimited_def white_def)

lemma json_object_head: "json_object S N ob \<Longrightarrow> \<exists>r. ob = 123 # r"
  by (auto elim: json_object.cases)

lemma json_array_head: "json_array S N ar \<Longrightarrow> \<exists>r. ar = 91 # r"
  by (auto elim: json_array.cases)

lemma json_members_head:
  "json_members S N ms \<Longrightarrow> \<exists>w k r. white w \<and> S k \<and> ms = w @ 34 # k @ 34 # r"
  by (erule json_members.cases) auto

text \<open>The first rune of a value is neither a space nor a right bracket.\<close>

lemma json_value_head:
  assumes "json_value S N v" and N: "\<And>n. N n \<Longrightarrow> number_text n"
  shows "\<exists>c r. v = c # r \<and> \<not> is_space c \<and> c \<noteq> 93"
  using assms(1)
proof cases
  case (v_number)
  from N [OF this] show ?thesis
    by (rule number_text_head) (auto simp: is_space_def is_digit_def)
next
  case (v_object)
  then show ?thesis by (auto dest: json_object_head simp: is_space_def)
next
  case (v_array)
  then show ?thesis by (auto dest: json_array_head simp: is_space_def)
qed (simp_all add: runes_def is_space_def)

lemma NextToken_right_bracket:
  "Type (fst (NextToken U l)) = TokenRightBracket \<longrightarrow> char (skipWhitespace l) = 93"
proof -
  define k where "k = skipWhitespace l"
  obtain sr sl where rs: "readString k = (sr, sl)" by (cases "readString k")
  obtain nr nl where rn: "readNumber U k = (nr, nl)" by (cases "readNumber U k")
  obtain ir il where ri: "readIdentifier U k = (ir, il)" by (cases "readIdentifier U k")
  show ?thesis
    unfolding NextToken_def Let_def k_def [symmetric] punctuation_def rs rn ri
    by (simp split: sum.splits)
qed

lemma not_right_bracket:
  assumes "\<not> is_space c" and "c \<noteq> 93"
  shows "Type (token (parser_at U f (c # r))) \<noteq> TokenRightBracket"
  using assms NextToken_right_bracket [of U "lex_at f (c # r)"]
  by (auto simp: parser_at_eval skipWhitespace_lex_at split: prod.splits)


lemma scalar_value:
  assumes "token p = \<lparr>Type = ty, Literal = lit\<rparr>" and "lexer p = lex_at f t"
    and "ty = TokenString \<or> ty = TokenNumber \<or> ty = TokenBoolean \<or> ty = TokenNull"
  shows "parseValueF U (Suc 0) p = Some (None, parser_at U f t)"
  using assms by (auto simp: nextToken_lex_at)

lemma parse_grammar:
  fixes U :: unicode_tables and f :: ioerr
  assumes S: "\<And>s. S s \<Longrightarrow> \<exists>d. string_body s d" and N: "\<And>n. N n \<Longrightarrow> number_text n"
  shows "json_value S N v \<Longrightarrow>
           \<forall>w t. white w \<longrightarrow> delimited t \<longrightarrow>
             (\<exists>n. parseValueF U n (parser_at U f (w @ v @ t)) = Some (None, parser_at U f t))"
    and "json_object S N ob \<Longrightarrow>
           \<forall>w t. white w \<longrightarrow>
             (\<exists>n. ParseObjectF U n (parser_at U f (w @ ob @ t)) = Some (None, parser_at U f t))"
    and "json_array S N ar \<Longrightarrow>
           \<forall>w t. white w \<longrightarrow>
             (\<exists>n. parseArrayF U n (parser_at U f (w @ ar @ t)) = Some (None, parser_at U f t))"
    and "json_members S N ms \<Longrightarrow>
           \<forall>t. \<exists>n. ParseObject_loopF U n (parser_at U f (ms @ 125 # t)) = Some (None, parser_at U f t)"
    and "json_elements S N es \<Longrightarrow>
           \<forall>t. \<exists>n. parseArray_loopF U n (parser_at U f (es @ 93 # t)) = Some (None, parser_at U f t)"
proof (induction rule: json_value_json_object_json_array_json_members_json_elements.inducts)
  case (v_string s)
  from S [OF this] obtain d where d: "string_body s d" ..
  show ?case
  proof (intro allI impI)
    fix w t assume w: "white w"
    have "parser_at U f (w @ (34 # s @ [34]) @ t)
            = \<lparr>lexer = lex_at f t, token = \<lparr>Type = TokenString, Literal = d\<rparr>\<rparr>"
      using parser_at_string [OF d, of U f t] by (simp add: parser_at_white [OF w])
    then have "parseValueF U (Suc 0) (parser_at U f (w @ (34 # s @ [34]) @ t))
                 = Some (None, parser_at U f t)"
      by (intro scalar_value [where ty = TokenString and lit = d]) simp_all
    then show "\<exists>n. parseValueF U n (parser_at U f (w @ (34 # s @ [34]) @ t))
                 = Some (None, parser_at U f t)" ..
  qed
next
  case (v_number n)
  show ?case
  proof (intro allI impI)
    fix w t assume w: "white w" and t: "delimited t"
    have "parser_at U f (w @ n @ t)
            = \<lparr>lexer = lex_at f t, token = \<lparr>Type = TokenNumber, Literal = n\<rparr>\<rparr>"
      using parser_at_number [OF N [OF \<open>N n\<close>] t, of U f] by (simp add: parser_at_white [OF w])
    then have "parseValueF U (Suc 0) (parser_at U f (w @ n @ t)) = Some (None, parser_at U f t)"
      by (intro scalar_value [where ty = TokenNumber and lit = n]) simp_all
    then show "\<exists>k. parseValueF U k (parser_at U f (w @ n @ t)) = Some (None, parser_at U f t)" ..
  qed
next
  case v_true
  show ?case
  proof (intro allI impI)
    fix w t assume w: "white w" and t: "delimited t"
    have "parser_at U f (w @ runes ''true'' @ t)
            = \<lparr>lexer = lex_at f t, token = \<lparr>Type = TokenBoolean, Literal = runes ''true''\<rparr>\<rparr>"
      using parser_at_literal(1) [OF t, of U f] by (simp add: parser_at_white [OF w])
    then have "parseValueF U (Suc 0) (parser_at U f (w @ runes ''true'' @ t))
                 = Some (None, parser_at U f t)"
      by (intro scalar_value [where ty = TokenBoolean and lit = "runes ''true''"]) simp_all
    then show "\<exists>k. parseValueF U k (parser_at U f (w @ runes ''true'' @ t))
                 = Some (None, parser_at U f t)" ..
  qed
next
  case v_false
  show ?case
  proof (intro allI impI)
    fix w t assume w: "white w" and t: "delimited t"
    have "parser_at U f (w @ runes ''false'' @ t)
            = \<lparr>lexer = lex_at f t, token = \<lparr>Type = TokenBoolean, Literal = runes ''false''\<rparr>\<rparr>"
      using parser_at_literal(2) [OF t, of U f] by (simp add: parser_at_white [OF w])
    then have "parseValueF U (Suc 0) (parser_at U f (w @ runes ''false'' @ t))
                 = Some (None, parser_at U f t)"
      by (intro scalar_value [where ty = TokenBoolean and lit = "runes ''false''"]) simp_all
    then show "\<exists>k. parseValueF U k (parser_at U f (w @ runes ''false'' @ t))
                 = Some (None, parser_at U f t)" ..
  qed
next
  case v_null
  show ?case
  proof (intro allI impI)
    fix w t assume w: "white w" and t: "delimited t"
    have "parser_at U f (w @ runes ''null'' @ t)
            = \<lparr>lexer = lex_at f t, token = \<lparr>Type = TokenNull, Literal = runes ''null''\<rparr>\<rparr>"
      using parser_at_literal(3) [OF t, of U f] by (simp add: parser_at_white [OF w])
    then have "parseValueF U (Suc 0) (parser_at U f (w @ runes ''null'' @ t))
                 = Some (None, parser_at U f t)"
      by (intro scalar_value [where ty = TokenNull and lit = "runes ''null''"]) simp_all
    then show "\<exists>k. parseValueF U k (parser_at U f (w @ runes ''null'' @ t))
                 = Some (None, parser_at U f t)" ..
  qed
next
  case (v_object ob)
  from json_object_head [OF v_object(1)] obtain r where r: "ob = 123 # r" ..
  show ?case
  proof (intro allI impI)
    fix w t assume w: "white w"
    from v_object(2) w obtain n where
      n: "ParseObjectF U n (parser_at U f (w @ ob @ t)) = Some (None, parser_at U f t)" by blast
    have "Type (token (parser_at U f (w @ ob @ t))) = TokenLeftBrace"
      by (simp add: r parser_at_white [OF w] parser_at_punctuation)
    with n have "parseValueF U (Suc n) (parser_at U f (w @ ob @ t)) = Some (None, parser_at U f t)"
      by simp
    then show "\<exists>k. parseValueF U k (parser_at U f (w @ ob @ t)) = Some (None, parser_at U f t)" ..
  qed
next
  case (v_array ar)
  from json_array_head [OF v_array(1)] obtain r where r: "ar = 91 # r" ..
  show ?case
  proof (intro allI impI)
    fix w t assume w: "white w"
    from v_array(2) w obtain n where
      n: "parseArrayF U n (parser_at U f (w @ ar @ t)) = Some (None, parser_at U f t)" by blast
    have "Type (token (parser_at U f (w @ ar @ t))) = TokenLeftBracket"
      by (simp add: r parser_at_white [OF w] parser_at_punctuation)
    with n have "parseValueF U (Suc n) (parser_at U f (w @ ar @ t)) = Some (None, parser_at U f t)"
      by simp
    then show "\<exists>k. parseValueF U k (parser_at U f (w @ ar @ t)) = Some (None, parser_at U f t)" ..
  qed
next
  case (empty_object w')
  show ?case
  proof (intro allI impI)
    fix w t assume w: "white w"
    have "ParseObjectF U (Suc 0) (parser_at U f (w @ (123 # w' @ [125]) @ t))
            = Some (None, parser_at U f t)"
      by (simp add: parser_at_white [OF w] parser_at_white [OF \<open>white w'\<close>] parser_at_punctuation)
    then show "\<exists>n. ParseObjectF U n (parser_at U f (w @ (123 # w' @ [125]) @ t))
            = Some (None, parser_at U f t)" ..
  qed
next
  case (object ms)
  from json_members_head [OF object(1)] obtain w1 k r where
    ms: "white w1" "S k" "ms = w1 @ 34 # k @ 34 # r" by blast
  from S [OF ms(2)] obtain d where d: "string_body k d" ..
  show ?case
  proof (intro allI impI)
    fix w t assume w: "white w"
    from object(2) obtain n where
      n: "ParseObject_loopF U n (parser_at U f (ms @ 125 # t)) = Some (None, parser_at U f t)"
      by blast
    have "Type (token (parser_at U f (ms @ 125 # t))) = TokenString"
      using parser_at_string [OF d, of U f "r @ 125 # t"]
      by (simp add: ms(3) parser_at_white [OF ms(1)])
    with n have "ParseObjectF U (Suc n) (parser_at U f (w @ (123 # ms @ [125]) @ t))
            = Some (None, parser_at U f t)"
      by (simp add: parser_at_white [OF w] parser_at_punctuation)
    then show "\<exists>n. ParseObjectF U n (parser_at U f (w @ (123 # ms @ [125]) @ t))
            = Some (None, parser_at U f t)" ..
  qed
next
  case (empty_array w')
  show ?case
  proof (intro allI impI)
    fix w t assume w: "white w"
    have "parseArrayF U (Suc 0) (parser_at U f (w @ (91 # w' @ [93]) @ t))
            = Some (None, parser_at U f t)"
      by (simp add: parser_at_white [OF w] parser_at_white [OF \<open>white w'\<close>] parser_at_punctuation)
    then show "\<exists>n. parseArrayF U n (parser_at U f (w @ (91 # w' @ [93]) @ t))
            = Some (None, parser_at U f t)" ..
  qed
next
  case (array es)
  have "\<exists>w1 c r. white w1 \<and> es = w1 @ c # r \<and> \<not> is_space c \<and> c \<noteq> 93"
    using array(1)
  proof cases
    case (last_element w1 v w2)
    with json_value_head [OF last_element(3) N] show ?thesis by fastforce
  next
    case (more_elements w1 v w2 es')
    with json_value_head [OF more_elements(3) N] show ?thesis by fastforce
  qed
  then obtain w1 c r where es: "white w1" "es = w1 @ c # r" "\<not> is_space c" "c \<noteq> 93" by blast
  show ?case
  proof (intro allI impI)
    fix w t assume w: "white w"
    from array(2) obtain n where
      n: "parseArray_loopF U n (parser_at U f (es @ 93 # t)) = Some (None, parser_at U f t)"
      by blast
    have "Type (token (parser_at U f (es @ 93 # t))) \<noteq> TokenRightBracket"
      using not_right_bracket [OF es(3,4), of U f "r @ 93 # t"]
      by (simp add: es(2) parser_at_white [OF es(1)])
    with n have "parseArrayF U (Suc n) (parser_at U f (w @ (91 # es @ [93]) @ t))
            = Some (None, parser_at U f t)"
      by (simp add: parser_at_white [OF w] parser_at_punctuation)
    then show "\<exists>n. parseArrayF U n (parser_at U f (w @ (91 # es @ [93]) @ t))
            = Some (None, parser_at U f t)" ..
  qed
next
  case (last_member w1 k w2 w3 v w4)
  from S [OF \<open>S k\<close>] obtain d where d: "string_body k d" ..
  show ?case
  proof
    fix t
    from last_member(7) \<open>white w3\<close> obtain n where
      n: "parseValueF U n (parser_at U f (w3 @ v @ w4 @ 125 # t))
            = Some (None, parser_at U f (w4 @ 125 # t))"
      using delimited_white [OF \<open>white w4\<close>, of "125 # t"] by fastforce
    have key: "parser_at U f ((w1 @ 34 # k @ 34 # w2 @ 58 # w3 @ v @ w4) @ 125 # t)
            = \<lparr>lexer = lex_at f (w2 @ 58 # w3 @ v @ w4 @ 125 # t),
               token = \<lparr>Type = TokenString, Literal = d\<rparr>\<rparr>"
      using parser_at_string [OF d, of U f "w2 @ 58 # w3 @ v @ w4 @ 125 # t"]
      by (simp add: parser_at_white [OF \<open>white w1\<close>])
    have "ParseObject_loopF U (Suc n) (parser_at U f ((w1 @ 34 # k @ 34 # w2 @ 58 # w3 @ v @ w4) @ 125 # t))
            = Some (None, parser_at U f t)"
      unfolding key
      by (simp add: parser_at_white [OF \<open>white w2\<close>] parser_at_white [OF \<open>white w4\<close>]
          parser_at_punctuation n)
    then show "\<exists>n. ParseObject_loopF U n
        (parser_at U f ((w1 @ 34 # k @ 34 # w2 @ 58 # w3 @ v @ w4) @ 125 # t))
            = Some (None, parser_at U f t)" ..
  qed
next
  case (more_members w1 k w2 w3 v w4 ms)
  from S [OF \<open>S k\<close>] obtain d where d: "string_body k d" ..
  show ?case
  proof
    fix t
    from more_members(7) \<open>white w3\<close> obtain n1 where
      n1: "parseValueF U n1 (parser_at U f (w3 @ v @ w4 @ 44 # ms @ 125 # t))
            = Some (None, parser_at U f (w4 @ 44 # ms @ 125 # t))"
      using delimited_white [OF \<open>white w4\<close>, of "44 # ms @ 125 # t"] by fastforce
    from more_members(9) obtain n2 where
      n2: "ParseObject_loopF U n2 (parser_at U f (ms @ 125 # t)) = Some (None, parser_at U f t)"
      by blast
    define n where "n = max n1 n2"
    have v: "parseValueF U n (parser_at U f (w3 @ v @ w4 @ 44 # ms @ 125 # t))
            = Some (None, parser_at U f (w4 @ 44 # ms @ 125 # t))"
      by (rule fuel_mono(1) [OF _ n1]) (simp add: n_def)
    have l: "ParseObject_loopF U n (parser_at U f (ms @ 125 # t)) = Some (None, parser_at U f t)"
      by (rule fuel_mono(5) [OF _ n2]) (simp add: n_def)
    have key: "parser_at U f ((w1 @ 34 # k @ 34 # w2 @ 58 # w3 @ v @ w4 @ 44 # ms) @ 125 # t)
            = \<lparr>lexer = lex_at f (w2 @ 58 # w3 @ v @ w4 @ 44 # ms @ 125 # t),
               token = \<lparr>Type = TokenString, Literal = d\<rparr>\<rparr>"
      using parser_at_string [OF d, of U f "w2 @ 58 # w3 @ v @ w4 @ 44 # ms @ 125 # t"]
      by (simp add: parser_at_white [OF \<open>white w1\<close>])
    have "ParseObject_loopF U (Suc n)
            (parser_at U f ((w1 @ 34 # k @ 34 # w2 @ 58 # w3 @ v @ w4 @ 44 # ms) @ 125 # t))
            = Some (None, parser_at U f t)"
      unfolding key
      by (simp add: parser_at_white [OF \<open>white w2\<close>] parser_at_white [OF \<open>white w4\<close>]
          parser_at_punctuation v l)
    then show "\<exists>n. ParseObject_loopF U n
        (parser_at U f ((w1 @ 34 # k @ 34 # w2 @ 58 # w3 @ v @ w4 @ 44 # ms) @ 125 # t))
            = Some (None, parser_at U f t)" ..
  qed
next
  case (last_element w1 v w2)
  show ?case
  proof
    fix t
    from last_element(4) \<open>white w1\<close> obtain n where
      n: "parseValueF U n (parser_at U f (w1 @ v @ w2 @ 93 # t))
            = Some (None, parser_at U f (w2 @ 93 # t))"
      using delimited_white [OF \<open>white w2\<close>, of "93 # t"] by fastforce
    have "parseArray_loopF U (Suc n) (parser_at U f ((w1 @ v @ w2) @ 93 # t))
            = Some (None, parser_at U f t)"
      by (simp add: n parser_at_white [OF \<open>white w2\<close>] parser_at_punctuation)
    then show "\<exists>n. parseArray_loopF U n (parser_at U f ((w1 @ v @ w2) @ 93 # t))
            = Some (None, parser_at U f t)" ..
  qed
next
  case (more_elements w1 v w2 es)
  show ?case
  proof
    fix t
    from more_elements(4) \<open>white w1\<close> obtain n1 where
      n1: "parseValueF U n1 (parser_at U f (w1 @ v @ w2 @ 44 # es @ 93 # t))
            = Some (None, parser_at U f (w2 @ 44 # es @ 93 # t))"
      using delimited_white [OF \<open>white w2\<close>, of "44 # es @ 93 # t"] by fastforce
    from more_elements(6) obtain n2 where
      n2: "parseArray_loopF U n2 (parser_at U f (es @ 93 # t)) = Some (None, parser_at U f t)"
      by blast
    define n where "n = max n1 n2"
    have v: "parseValueF U n (parser_at U f (w1 @ v @ w2 @ 44 # es @ 93 # t))
            = Some (None, parser_at U f (w2 @ 44 # es @ 93 # t))"
      by (rule fuel_mono(1) [OF _ n1]) (simp add: n_def)
    have l: "parseArray_loopF U n (parser_at U f (es @ 93 # t)) = Some (None, parser_at U f t)"
      by (rule fuel_mono(3) [OF _ n2]) (simp add: n_def)
    have "parseArray_loopF U (Suc n) (parser_at U f ((w1 @ v @ w2 @ 44 # es) @ 93 # t))
            = Some (None, parser_at U f t)"
      by (simp add: v l parser_at_white [OF \<open>white w2\<close>] parser_at_punctuation)
    then show "\<exists>n. parseArray_loopF U n (parser_at U f ((w1 @ v @ w2 @ 44 # es) @ 93 # t))
            = Some (None, parser_at U f t)" ..
  qed
qed

section \<open>Running the parser on a text\<close>

lemma Parser_ok_parser_at [simp]: "Parser_ok (parser_at U f t)"
  unfolding parser_at_def NewParser_def
  by (rule nextToken_ok) (simp add: Parser_ok_def)

lemma validate_fuel:
  assumes "ParseObjectF U n (parser_at U EOF t) = Some (e, p)"
  shows "ParseObject U (NewParser U (NewLexer (text_stream t))) = Some (e, p)"
    and "validate U (text_stream t) = Some e"
  using ParseObject_fuel [OF Parser_ok_parser_at assms]
  by (simp_all add: validate_def NewParser_text)

lemmas parse_simps = parser_at_eval lex_simps nextToken_def

lemma supported_grammar:
  "\<And>s. supported_string s \<Longrightarrow> \<exists>d. string_body s d" "\<And>n. number_text n \<Longrightarrow> number_text n"
  by (simp_all add: supported_string_def)

lemma object_accepted:
  assumes "json_object supported_string number_text ob" and "white w"
  shows "ParseObject U (NewParser U (NewLexer (text_stream (w @ ob @ t))))
           = Some (None, parser_at U EOF t)"
    and "validate U (text_stream (w @ ob @ t)) = Some None"
proof -
  from parse_grammar(2) [OF supported_grammar assms(1), of U EOF] assms(2)
  obtain n where "ParseObjectF U n (parser_at U EOF (w @ ob @ t)) = Some (None, parser_at U EOF t)"
    by blast
  from validate_fuel [OF this]
  show "ParseObject U (NewParser U (NewLexer (text_stream (w @ ob @ t))))
           = Some (None, parser_at U EOF t)"
    and "validate U (text_stream (w @ ob @ t)) = Some None" .
qed

lemma white_Nil [simp]: "white []"
  by (simp add: white_def)

lemma member_object:
  assumes "supported_string k" and "white w" and "json_value supported_string number_text v"
  shows "json_object supported_string number_text (123 # 34 # k @ 34 # 58 # w @ v @ [125])"
  using object [OF last_member [OF white_Nil assms(1) white_Nil assms(2,3) white_Nil]]
  by simp

lemma supported_plain:
  "list_all (\<lambda>c. 32 \<le> c \<and> c \<noteq> 34 \<and> c \<noteq> 92) s \<Longrightarrow> string_body s s"
  by (induction s) (auto intro: string_body.intros)

subsection \<open>The grammar of RFC 8259\<close>

text \<open>
  JSON as the standard defines it differs from the grammar of the specification in two
  token languages: a string may hold the escape \<^verbatim>\<open>\u\<close> with four hexadecimal digits, and the
  integer part of a number has no leading zero.
\<close>

definition is_hex :: "rune \<Rightarrow> bool" where
  "is_hex c = (is_digit c \<or> (65 \<le> c \<and> c \<le> 70) \<or> (97 \<le> c \<and> c \<le> 102))"

inductive rfc_string :: "rune list \<Rightarrow> bool" where
  rfc_end: "rfc_string []"
| rfc_raw: "32 \<le> c \<Longrightarrow> c \<le> 1114111 \<Longrightarrow> c \<noteq> 34 \<Longrightarrow> c \<noteq> 92 \<Longrightarrow> rfc_string s
    \<Longrightarrow> rfc_string (c # s)"
| rfc_esc: "c \<in> set [34, 92, 47, 98, 102, 110, 114, 116] \<Longrightarrow> rfc_string s
    \<Longrightarrow> rfc_string (92 # c # s)"
| rfc_hex: "is_hex h1 \<Longrightarrow> is_hex h2 \<Longrightarrow> is_hex h3 \<Longrightarrow> is_hex h4 \<Longrightarrow> rfc_string s
    \<Longrightarrow> rfc_string (92 # 117 # h1 # h2 # h3 # h4 # s)"

inductive rfc_number :: "rune list \<Rightarrow> bool" where
  rfc_number: "sg = [] \<or> sg = [45] \<Longrightarrow> ip = [48] \<or> (digits ip \<and> hd ip \<noteq> 48) \<Longrightarrow> fraction fp
    \<Longrightarrow> exponent ep \<Longrightarrow> rfc_number (sg @ ip @ fp @ ep)"

lemma compact_member:
  assumes "S k" and "json_value S N v"
  shows "json_object S N (123 # 34 # k @ 34 # 58 # v @ [125])"
  using object [OF last_member [OF white_Nil assms(1) white_Nil white_Nil assms(2) white_Nil]]
  by simp

lemma compact_elements:
  "json_value S N v \<Longrightarrow> json_elements S N v"
  "json_value S N v \<Longrightarrow> json_elements S N es \<Longrightarrow> json_elements S N (v @ 44 # es)"
  using last_element [OF white_Nil _ white_Nil, of S N v]
        more_elements [OF white_Nil _ white_Nil, of S N v es]
  by simp_all

lemma digit_number: "is_digit c \<Longrightarrow> number_text [c]"
  using number [of "[]" "[c]" "[]" "[]"]
  by (simp add: digits_def no_fraction no_exponent)

lemma plain_supported:
  "list_all (\<lambda>c. 32 \<le> c \<and> c \<noteq> 34 \<and> c \<noteq> 92) s \<Longrightarrow> supported_string s"
  using supported_plain [of s] by (auto simp: supported_string_def)

lemma json_documentI:
  "white w1 \<Longrightarrow> json_object S N ob \<Longrightarrow> white w2 \<Longrightarrow> json_document S N (w1 @ ob @ w2)"
  by (auto simp: json_document_def)



text \<open>The parser at the value of the first member of the root object.\<close>

lemma first_member_value:
  assumes "white w0" and "white w1" and "supported_string k" and "white w2"
    and "parseValueF U (Suc 0) (parser_at U EOF t) = Some (Some e, p)"
  shows "validate U (text_stream (w0 @ 123 # w1 @ 34 # k @ 34 # w2 @ 58 # t))
           = Some (Some (invalid_value e))"
proof -
  from assms(3) obtain d where d: "string_body k d" by (auto simp: supported_string_def)
  have key: "parser_at U EOF (w1 @ 34 # k @ 34 # w2 @ 58 # t)
          = \<lparr>lexer = lex_at EOF (w2 @ 58 # t), token = \<lparr>Type = TokenString, Literal = d\<rparr>\<rparr>"
    using parser_at_string [OF d, of U EOF "w2 @ 58 # t"] by (simp add: parser_at_white [OF assms(2)])
  have "ParseObject_loopF U (Suc (Suc 0)) (parser_at U EOF (w1 @ 34 # k @ 34 # w2 @ 58 # t))
          = Some (Some (invalid_value e), p)"
    unfolding key
    using assms(5) by (simp add: parser_at_white [OF assms(4)] parser_at_punctuation)
  then have "ParseObjectF U (Suc (Suc (Suc 0))) (parser_at U EOF (w0 @ 123 # w1 @ 34 # k @ 34 # w2 @ 58 # t))
          = Some (Some (invalid_value e), p)"
    by (simp add: parser_at_white [OF assms(1)] parser_at_punctuation key)
  from validate_fuel(2) [OF this] show ?thesis .
qed

lemma letter_not_special:
  assumes "unicode_IsLetter U c"
  shows "\<not> is_space c" "c \<noteq> 123" "c \<noteq> 125" "c \<noteq> 91" "c \<noteq> 93" "c \<noteq> 58" "c \<noteq> 44"
    "c \<noteq> 34" "c \<noteq> 45"
  using assms by (auto simp: unicode_IsLetter_def is_space_def split: if_splits)

lemma digit_not_special:
  assumes "c = 45 \<or> unicode_IsDigit U c"
  shows "\<not> is_space c" "c \<noteq> 123" "c \<noteq> 125" "c \<noteq> 91" "c \<noteq> 93" "c \<noteq> 58" "c \<noteq> 44"
    "c \<noteq> 34"
  using assms by (auto simp: unicode_IsDigit_def is_space_def split: if_splits)

lemma readIdentifier_run:
  assumes "list_all (ident_char U) cs" and "\<not> starts (ident_char U) t"
  shows "readIdentifier U (lex_at f (cs @ t)) = (cs, lex_at f t)"
proof -
  have "takeWhile (ident_char U) t = []" "dropWhile (ident_char U) t = t"
    using assms(2) by (cases t; simp)+
  with assms(1) show ?thesis
    by (simp add: readIdentifier_def readIdentifier_lex_at list_all_iff)
qed

lemma NextToken_number_dispatch:
  assumes "c = 45 \<or> unicode_IsDigit U c"
  shows "NextToken U (lex_at f (c # t))
           = (\<lparr>Type = TokenNumber, Literal = fst (readNumber U (lex_at f (c # t)))\<rparr>,
              snd (readNumber U (lex_at f (c # t))))"
  using assms digit_not_special [OF assms]
  by (auto simp: NextToken_def skipWhitespace_lex_at Let_def split: prod.splits)

lemma scalar_member_accepted:
  assumes "parser_at U EOF t = \<lparr>lexer = lex_at EOF [125], token = \<lparr>Type = TokenNumber, Literal = n\<rparr>\<rparr>"
  shows \<open>validate U (text_stream (runes ''{"a":'' @ t)) = Some None\<close>
proof -
  have "ParseObjectF U (Suc (Suc (Suc 0))) (parser_at U EOF (123 # 34 # 97 # 34 # 58 # t))
          = Some (None, parser_at U EOF [])"
    by (simp add: parser_at_punctuation parser_at_string [of "[97]" "[97]" U EOF "58 # t", simplified]
        supported_plain assms)
  from validate_fuel(2) [OF this] show ?thesis by (simp add: runes_def)
qed

subsection \<open>Documents with a lexical error\<close>

text \<open>
  A text that the parser reads, inside the root object, up to a place where the lexer
  returns an error token (\<open>E\<close> holds of the rest of the text from there): the place of a
  key, of a colon, of a value, or of a separator after a value, at any depth; what comes
  before that place follows the grammar.
\<close>

inductive broken_value :: "(rune list \<Rightarrow> bool) \<Rightarrow> (rune list \<Rightarrow> bool) \<Rightarrow> (rune list \<Rightarrow> bool) \<Rightarrow> rune list \<Rightarrow> bool"
  and broken_members :: "(rune list \<Rightarrow> bool) \<Rightarrow> (rune list \<Rightarrow> bool) \<Rightarrow> (rune list \<Rightarrow> bool) \<Rightarrow> rune list \<Rightarrow> bool"
  and broken_elements :: "(rune list \<Rightarrow> bool) \<Rightarrow> (rune list \<Rightarrow> bool) \<Rightarrow> (rune list \<Rightarrow> bool) \<Rightarrow> rune list \<Rightarrow> bool"
  for S :: "rune list \<Rightarrow> bool" and N :: "rune list \<Rightarrow> bool" and E :: "rune list \<Rightarrow> bool"
where
  bad_value: "E t \<Longrightarrow> broken_value S N E t"
| in_object: "white w \<Longrightarrow> broken_members S N E ms \<Longrightarrow> broken_value S N E (w @ 123 # ms)"
| in_array: "white w \<Longrightarrow> broken_elements S N E es \<Longrightarrow> broken_value S N E (w @ 91 # es)"
| bad_key: "E t \<Longrightarrow> broken_members S N E t"
| bad_colon: "white w1 \<Longrightarrow> S k \<Longrightarrow> E t \<Longrightarrow> broken_members S N E (w1 @ 34 # k @ 34 # t)"
| in_member:
    "white w1 \<Longrightarrow> S k \<Longrightarrow> white w2 \<Longrightarrow> broken_value S N E v
     \<Longrightarrow> broken_members S N E (w1 @ 34 # k @ 34 # w2 @ 58 # v)"
| bad_member_separator:
    "white w1 \<Longrightarrow> S k \<Longrightarrow> white w2 \<Longrightarrow> white w3 \<Longrightarrow> json_value S N v \<Longrightarrow> delimited t \<Longrightarrow> E t
     \<Longrightarrow> broken_members S N E (w1 @ 34 # k @ 34 # w2 @ 58 # w3 @ v @ t)"
| later_member:
    "white w1 \<Longrightarrow> S k \<Longrightarrow> white w2 \<Longrightarrow> white w3 \<Longrightarrow> json_value S N v \<Longrightarrow> white w4
     \<Longrightarrow> broken_members S N E ms
     \<Longrightarrow> broken_members S N E (w1 @ 34 # k @ 34 # w2 @ 58 # w3 @ v @ w4 @ 44 # ms)"
| in_element: "broken_value S N E v \<Longrightarrow> broken_elements S N E v"
| bad_element_separator:
    "white w1 \<Longrightarrow> json_value S N v \<Longrightarrow> delimited t \<Longrightarrow> E t
     \<Longrightarrow> broken_elements S N E (w1 @ v @ t)"
| later_element:
    "white w1 \<Longrightarrow> json_value S N v \<Longrightarrow> white w2 \<Longrightarrow> broken_elements S N E es
     \<Longrightarrow> broken_elements S N E (w1 @ v @ w2 @ 44 # es)"

text \<open>A message that holds the literal of the error token.\<close>

definition mentions :: "gostring \<Rightarrow> error \<Rightarrow> bool" where
  "mentions L e = (\<exists>before after. e = before @ L @ after)"

lemma mentionsI: "e = before @ L @ after \<Longrightarrow> mentions L e"
  unfolding mentions_def by blast

lemma mentions_messages:
  "mentions L (expected_value \<lparr>Type = ty, Literal = L\<rparr>)"
  "mentions L (expected_string_key \<lparr>Type = ty, Literal = L\<rparr>)"
  "mentions L (expected_colon \<lparr>Type = ty, Literal = L\<rparr>)"
  "mentions L (expected_object_separator \<lparr>Type = ty, Literal = L\<rparr>)"
  "mentions L (expected_array_separator \<lparr>Type = ty, Literal = L\<rparr>)"
proof -
  show "mentions L (expected_value \<lparr>Type = ty, Literal = L\<rparr>)"
    by (rule mentionsI [where after = "[]"]) (simp add: expected_value_def)
  show "mentions L (expected_string_key \<lparr>Type = ty, Literal = L\<rparr>)"
    by (rule mentionsI [where after = "[]"]) (simp add: expected_string_key_def)
  show "mentions L (expected_colon \<lparr>Type = ty, Literal = L\<rparr>)"
    by (rule mentionsI [where after = "[39]" and before = "runes ''expected ':', got '' @ [39]"])
       (simp add: expected_colon_def quoted_def)
  show "mentions L (expected_object_separator \<lparr>Type = ty, Literal = L\<rparr>)"
    by (rule mentionsI [where after = "[39]" and before = "runes ''expected ',' or '}', got '' @ [39]"])
       (simp add: expected_object_separator_def quoted_def)
  show "mentions L (expected_array_separator \<lparr>Type = ty, Literal = L\<rparr>)"
    by (rule mentionsI [where after = "[39]" and before = "runes ''expected ',' or ']', got '' @ [39]"])
       (simp add: expected_array_separator_def quoted_def)
qed

lemma mentions_invalid_value: "mentions L e \<Longrightarrow> mentions L (invalid_value e)"
proof -
  assume "mentions L e"
  then obtain before after where "e = before @ L @ after" by (auto simp: mentions_def)
  then show ?thesis
    by (intro mentionsI [where before = "runes ''invalid value: '' @ before" and after = after])
       (simp add: invalid_value_def)
qed

lemma token_parser_at: "token (parser_at U f t) = fst (NextToken U (lex_at f t))"
  by (simp add: parser_at_eval split: prod.splits)


lemma value_not_right_bracket:
  assumes "json_value S N v" and "\<And>n. N n \<Longrightarrow> number_text n" and "white w"
  shows "Type (token (parser_at U f (w @ v @ t))) \<noteq> TokenRightBracket"
proof -
  from json_value_head [OF assms(1,2)] obtain c r where
    "v = c # r" "\<not> is_space c" "c \<noteq> 93" by blast
  with not_right_bracket [of c U f "r @ t"] show ?thesis
    by (simp add: parser_at_white [OF assms(3)])
qed

lemma broken_fails:
  fixes U :: unicode_tables and f :: ioerr
  assumes S: "\<And>s. S s \<Longrightarrow> \<exists>d. string_body s d" and N: "\<And>n. N n \<Longrightarrow> number_text n"
    and E: "\<And>t. E t \<Longrightarrow> fst (NextToken U (lex_at f t)) = \<lparr>Type = TokenError, Literal = L\<rparr>"
  shows "broken_value S N E v \<Longrightarrow>
           Type (token (parser_at U f v)) \<noteq> TokenRightBracket \<and>
           (\<exists>n e p. parseValueF U n (parser_at U f v) = Some (Some e, p) \<and> mentions L e)"
    and "broken_members S N E ms \<Longrightarrow>
           Type (token (parser_at U f ms)) \<noteq> TokenRightBrace \<and>
           (\<exists>n e p. ParseObject_loopF U n (parser_at U f ms) = Some (Some e, p) \<and> mentions L e)"
    and "broken_elements S N E es \<Longrightarrow>
           Type (token (parser_at U f es)) \<noteq> TokenRightBracket \<and>
           (\<exists>n e p. parseArray_loopF U n (parser_at U f es) = Some (Some e, p) \<and> mentions L e)"
proof (induction rule: broken_value_broken_members_broken_elements.inducts)
  case (bad_value t)
  from E [OF this] have tok: "token (parser_at U f t) = \<lparr>Type = TokenError, Literal = L\<rparr>"
    by (simp add: token_parser_at)
  then have "parseValueF U (Suc 0) (parser_at U f t)
      = Some (Some (expected_value \<lparr>Type = TokenError, Literal = L\<rparr>), parser_at U f t)"
    by simp
  with tok mentions_messages(1) [of L TokenError] show ?case by (simp del: parseValueF.simps) blast
next
  case (in_object w ms)
  then obtain n e p where
    l: "ParseObject_loopF U n (parser_at U f ms) = Some (Some e, p)" "mentions L e"
    and rb: "Type (token (parser_at U f ms)) \<noteq> TokenRightBrace" by blast
  have p0: "parser_at U f (w @ 123 # ms)
      = \<lparr>lexer = lex_at f ms, token = \<lparr>Type = TokenLeftBrace, Literal = [123]\<rparr>\<rparr>"
    by (simp add: parser_at_white [OF \<open>white w\<close>] parser_at_punctuation)
  have "parseValueF U (Suc (Suc n)) (parser_at U f (w @ 123 # ms)) = Some (Some e, p)"
    unfolding p0 using l(1) rb by simp
  with l(2) p0 show ?case by (simp del: parseValueF.simps) blast
next
  case (in_array w es)
  then obtain n e p where
    l: "parseArray_loopF U n (parser_at U f es) = Some (Some e, p)" "mentions L e"
    and rb: "Type (token (parser_at U f es)) \<noteq> TokenRightBracket" by blast
  have p0: "parser_at U f (w @ 91 # es)
      = \<lparr>lexer = lex_at f es, token = \<lparr>Type = TokenLeftBracket, Literal = [91]\<rparr>\<rparr>"
    by (simp add: parser_at_white [OF \<open>white w\<close>] parser_at_punctuation)
  have "parseValueF U (Suc (Suc n)) (parser_at U f (w @ 91 # es)) = Some (Some e, p)"
    unfolding p0 using l(1) rb by simp
  with l(2) p0 show ?case by (simp del: parseValueF.simps) blast
next
  case (bad_key t)
  from E [OF this] have tok: "token (parser_at U f t) = \<lparr>Type = TokenError, Literal = L\<rparr>"
    by (simp add: token_parser_at)
  then have "ParseObject_loopF U (Suc 0) (parser_at U f t)
      = Some (Some (expected_string_key \<lparr>Type = TokenError, Literal = L\<rparr>), parser_at U f t)"
    by simp
  with tok mentions_messages(2) [of L TokenError] show ?case
    by (simp del: ParseObject_loopF.simps) blast
next
  case (bad_colon w1 k t)
  from S [OF \<open>S k\<close>] obtain d where d: "string_body k d" ..
  from E [OF \<open>E t\<close>] have tok: "token (parser_at U f t) = \<lparr>Type = TokenError, Literal = L\<rparr>"
    by (simp add: token_parser_at)
  have key: "parser_at U f (w1 @ 34 # k @ 34 # t)
      = \<lparr>lexer = lex_at f t, token = \<lparr>Type = TokenString, Literal = d\<rparr>\<rparr>"
    using parser_at_string [OF d, of U f t] by (simp add: parser_at_white [OF \<open>white w1\<close>])
  have "ParseObject_loopF U (Suc 0) (parser_at U f (w1 @ 34 # k @ 34 # t))
      = Some (Some (expected_colon \<lparr>Type = TokenError, Literal = L\<rparr>), parser_at U f t)"
    unfolding key using tok by simp
  with key mentions_messages(3) [of L TokenError] show ?case
    by (simp del: ParseObject_loopF.simps) blast
next
  case (in_member w1 k w2 v)
  from S [OF \<open>S k\<close>] obtain d where d: "string_body k d" ..
  from in_member obtain n e p where
    v: "parseValueF U n (parser_at U f v) = Some (Some e, p)" "mentions L e" by blast
  have key: "parser_at U f (w1 @ 34 # k @ 34 # w2 @ 58 # v)
      = \<lparr>lexer = lex_at f (w2 @ 58 # v), token = \<lparr>Type = TokenString, Literal = d\<rparr>\<rparr>"
    using parser_at_string [OF d, of U f "w2 @ 58 # v"]
    by (simp add: parser_at_white [OF \<open>white w1\<close>])
  have "ParseObject_loopF U (Suc n) (parser_at U f (w1 @ 34 # k @ 34 # w2 @ 58 # v))
      = Some (Some (invalid_value e), p)"
    unfolding key using v(1)
    by (simp add: parser_at_white [OF \<open>white w2\<close>] parser_at_punctuation)
  with key mentions_invalid_value [OF v(2)] show ?case
    by (simp del: ParseObject_loopF.simps) blast
next
  case (bad_member_separator w1 k w2 w3 v t)
  from S [OF \<open>S k\<close>] obtain d where d: "string_body k d" ..
  from E [OF \<open>E t\<close>] have tok: "token (parser_at U f t) = \<lparr>Type = TokenError, Literal = L\<rparr>"
    by (simp add: token_parser_at)
  from parse_grammar(1) [OF S N \<open>json_value S N v\<close>, of U f] \<open>white w3\<close> \<open>delimited t\<close>
  obtain n where n: "parseValueF U n (parser_at U f (w3 @ v @ t)) = Some (None, parser_at U f t)"
    by blast
  have key: "parser_at U f (w1 @ 34 # k @ 34 # w2 @ 58 # w3 @ v @ t)
      = \<lparr>lexer = lex_at f (w2 @ 58 # w3 @ v @ t), token = \<lparr>Type = TokenString, Literal = d\<rparr>\<rparr>"
    using parser_at_string [OF d, of U f "w2 @ 58 # w3 @ v @ t"]
    by (simp add: parser_at_white [OF \<open>white w1\<close>])
  have "ParseObject_loopF U (Suc n) (parser_at U f (w1 @ 34 # k @ 34 # w2 @ 58 # w3 @ v @ t))
      = Some (Some (expected_object_separator \<lparr>Type = TokenError, Literal = L\<rparr>),
              parser_at U f t)"
    unfolding key using n tok
    by (simp add: parser_at_white [OF \<open>white w2\<close>] parser_at_punctuation)
  with key mentions_messages(4) [of L TokenError] show ?case
    by (simp del: ParseObject_loopF.simps) blast
next
  case (later_member w1 k w2 w3 v w4 ms)
  from S [OF \<open>S k\<close>] obtain d where d: "string_body k d" ..
  from later_member obtain n2 e p where
    l: "ParseObject_loopF U n2 (parser_at U f ms) = Some (Some e, p)" "mentions L e" by blast
  from parse_grammar(1) [OF S N \<open>json_value S N v\<close>, of U f] \<open>white w3\<close>
    delimited_white [OF \<open>white w4\<close>, of "44 # ms"]
  obtain n1 where n1: "parseValueF U n1 (parser_at U f (w3 @ v @ w4 @ 44 # ms))
      = Some (None, parser_at U f (w4 @ 44 # ms))"
    by fastforce
  define n where "n = max n1 n2"
  have v: "parseValueF U n (parser_at U f (w3 @ v @ w4 @ 44 # ms))
      = Some (None, parser_at U f (w4 @ 44 # ms))"
    by (rule fuel_mono(1) [OF _ n1]) (simp add: n_def)
  have l': "ParseObject_loopF U n (parser_at U f ms) = Some (Some e, p)"
    by (rule fuel_mono(5) [OF _ l(1)]) (simp add: n_def)
  have key: "parser_at U f (w1 @ 34 # k @ 34 # w2 @ 58 # w3 @ v @ w4 @ 44 # ms)
      = \<lparr>lexer = lex_at f (w2 @ 58 # w3 @ v @ w4 @ 44 # ms),
         token = \<lparr>Type = TokenString, Literal = d\<rparr>\<rparr>"
    using parser_at_string [OF d, of U f "w2 @ 58 # w3 @ v @ w4 @ 44 # ms"]
    by (simp add: parser_at_white [OF \<open>white w1\<close>])
  have "ParseObject_loopF U (Suc n)
          (parser_at U f (w1 @ 34 # k @ 34 # w2 @ 58 # w3 @ v @ w4 @ 44 # ms))
      = Some (Some e, p)"
    unfolding key using v l'
    by (simp add: parser_at_white [OF \<open>white w2\<close>] parser_at_white [OF \<open>white w4\<close>]
        parser_at_punctuation)
  with key l(2) show ?case by (simp del: ParseObject_loopF.simps) blast
next
  case (in_element v)
  then obtain n e p where
    v: "parseValueF U n (parser_at U f v) = Some (Some e, p)" "mentions L e"
    and rb: "Type (token (parser_at U f v)) \<noteq> TokenRightBracket" by blast
  have "parseArray_loopF U (Suc n) (parser_at U f v) = Some (Some e, p)"
    using v(1) by simp
  with rb v(2) show ?case by (simp del: parseArray_loopF.simps) blast
next
  case (bad_element_separator w1 v t)
  from E [OF \<open>E t\<close>] have tok: "token (parser_at U f t) = \<lparr>Type = TokenError, Literal = L\<rparr>"
    by (simp add: token_parser_at)
  from parse_grammar(1) [OF S N \<open>json_value S N v\<close>, of U f] \<open>white w1\<close> \<open>delimited t\<close>
  obtain n where n: "parseValueF U n (parser_at U f (w1 @ v @ t)) = Some (None, parser_at U f t)"
    by blast
  have "parseArray_loopF U (Suc n) (parser_at U f (w1 @ v @ t))
      = Some (Some (expected_array_separator \<lparr>Type = TokenError, Literal = L\<rparr>),
              parser_at U f t)"
    using n tok by simp
  with value_not_right_bracket [OF \<open>json_value S N v\<close> N \<open>white w1\<close>, of U f t]
    mentions_messages(5) [of L TokenError]
  show ?case by (simp del: parseArray_loopF.simps) blast
next
  case (later_element w1 v w2 es)
  from later_element obtain n2 e p where
    l: "parseArray_loopF U n2 (parser_at U f es) = Some (Some e, p)" "mentions L e" by blast
  from parse_grammar(1) [OF S N \<open>json_value S N v\<close>, of U f] \<open>white w1\<close>
    delimited_white [OF \<open>white w2\<close>, of "44 # es"]
  obtain n1 where n1: "parseValueF U n1 (parser_at U f (w1 @ v @ w2 @ 44 # es))
      = Some (None, parser_at U f (w2 @ 44 # es))"
    by fastforce
  define n where "n = max n1 n2"
  have v: "parseValueF U n (parser_at U f (w1 @ v @ w2 @ 44 # es))
      = Some (None, parser_at U f (w2 @ 44 # es))"
    by (rule fuel_mono(1) [OF _ n1]) (simp add: n_def)
  have l': "parseArray_loopF U n (parser_at U f es) = Some (Some e, p)"
    by (rule fuel_mono(3) [OF _ l(1)]) (simp add: n_def)
  have "parseArray_loopF U (Suc n) (parser_at U f (w1 @ v @ w2 @ 44 # es)) = Some (Some e, p)"
    using v l' by (simp add: parser_at_white [OF \<open>white w2\<close>] parser_at_punctuation)
  with value_not_right_bracket [OF \<open>json_value S N v\<close> N \<open>white w1\<close>, of U f "w2 @ 44 # es"] l(2)
  show ?case by (simp del: parseArray_loopF.simps) blast
qed

lemma broken_document_rejected:
  assumes "broken_members supported_string number_text E ms" and "white w"
    and "\<And>t. E t \<Longrightarrow> fst (NextToken U (lex_at EOF t)) = \<lparr>Type = TokenError, Literal = L\<rparr>"
  shows "\<exists>e. validate U (text_stream (w @ 123 # ms)) = Some (Some e) \<and> mentions L e"
proof -
  from broken_fails(2) [OF supported_grammar assms(3) assms(1)]
  obtain n e p where
    l: "ParseObject_loopF U n (parser_at U EOF ms) = Some (Some e, p)" "mentions L e"
    and rb: "Type (token (parser_at U EOF ms)) \<noteq> TokenRightBrace" by blast
  have "ParseObjectF U (Suc n) (parser_at U EOF (w @ 123 # ms)) = Some (Some e, p)"
    using l(1) rb by (simp add: parser_at_white [OF assms(2)] parser_at_punctuation)
  from validate_fuel(2) [OF this] l(2) show ?thesis by blast
qed



text \<open>
  The rest of a text begins, after whitespace, with the identifier \<open>ident\<close>, which is none of
  \<^verbatim>\<open>true\<close>, \<^verbatim>\<open>false\<close> and \<^verbatim>\<open>null\<close>: a letter (not also listed as a digit), then letters and
  underscores, as many as there are.
\<close>

definition bad_identifier :: "unicode_tables \<Rightarrow> gostring \<Rightarrow> rune list \<Rightarrow> bool" where
  "bad_identifier U ident t =
     (\<exists>w c cs rest. white w \<and> ident = c # cs \<and> unicode_IsLetter U c \<and> \<not> unicode_IsDigit U c
        \<and> list_all (ident_char U) cs \<and> \<not> starts (ident_char U) rest
        \<and> ident \<noteq> runes ''true'' \<and> ident \<noteq> runes ''false'' \<and> ident \<noteq> runes ''null''
        \<and> t = w @ ident @ rest)"

lemma NextToken_identifier:
  assumes "unicode_IsLetter U c" and "\<not> unicode_IsDigit U c"
    and "list_all (ident_char U) cs" and "\<not> starts (ident_char U) t" and "white w"
  shows "NextToken U (lex_at f (w @ (c # cs) @ t))
           = (if c # cs = runes ''true'' \<or> c # cs = runes ''false''
              then \<lparr>Type = TokenBoolean, Literal = c # cs\<rparr>
              else if c # cs = runes ''null''
              then \<lparr>Type = TokenNull, Literal = c # cs\<rparr>
              else \<lparr>Type = TokenError, Literal = runes ''invalid identifier: '' @ c # cs\<rparr>,
              lex_at f t)"
proof -
  have "list_all (ident_char U) (c # cs)"
    using assms(1,3) by (simp add: ident_char_def)
  from readIdentifier_run [OF this assms(4), of f]
  have "NextToken U (lex_at f ((c # cs) @ t))
           = (if c # cs = runes ''true'' \<or> c # cs = runes ''false''
              then \<lparr>Type = TokenBoolean, Literal = c # cs\<rparr>
              else if c # cs = runes ''null''
              then \<lparr>Type = TokenNull, Literal = c # cs\<rparr>
              else \<lparr>Type = TokenError, Literal = runes ''invalid identifier: '' @ c # cs\<rparr>,
              lex_at f t)"
    using assms(1,2) letter_not_special [OF assms(1)]
    by (simp add: NextToken_def skipWhitespace_lex_at Let_def)
  then show ?thesis
    by (simp only: NextToken_white [OF assms(5)])
qed


lemma bad_identifier_token:
  assumes "bad_identifier U ident t"
  shows "fst (NextToken U (lex_at f t))
           = \<lparr>Type = TokenError, Literal = runes ''invalid identifier: '' @ ident\<rparr>"
proof -
  from assms obtain w c cs rest where h:
    "white w" "ident = c # cs" "unicode_IsLetter U c" "\<not> unicode_IsDigit U c"
    "list_all (ident_char U) cs" "\<not> starts (ident_char U) rest"
    "ident \<noteq> runes ''true''" "ident \<noteq> runes ''false''" "ident \<noteq> runes ''null''"
    "t = w @ ident @ rest"
    unfolding bad_identifier_def by blast
  from NextToken_identifier [OF h(3,4,5,6,1), of f] h show ?thesis by simp
qed

subsection \<open>The greedy assembly rule for numbers\<close>

text \<open>
  The specification describes number scanning on the text: an optional minus sign, a run
  of digits, an optional point with a run of digits, an optional \<^verbatim>\<open>e\<close> or \<^verbatim>\<open>E\<close> with an
  optional sign and a run of digits, each part taken as far as it goes and none of them
  required. The definitions below follow these words on the text alone, with no lexer
  state; \<open>readNumber_scan\<close> compares them with \<^verbatim>\<open>readNumber\<close>. A scan is the pair of the text
  matched so far and the text that is left: \<open>one_if P\<close> takes the next rune when it
  satisfies \<open>P\<close>, \<open>many P\<close> takes the longest run of such runes, and
  \<open>spec_greedy_number U t\<close> is the literal matched at the head of \<open>t\<close> with the text that
  follows it.
\<close>

type_synonym scan = "rune list \<times> rune list"

definition one_if :: "(rune \<Rightarrow> bool) \<Rightarrow> scan \<Rightarrow> scan" where
  "one_if P s = (case snd s of [] \<Rightarrow> s | c # t \<Rightarrow> if P c then (fst s @ [c], t) else s)"

definition many :: "(rune \<Rightarrow> bool) \<Rightarrow> scan \<Rightarrow> scan" where
  "many P s = (fst s @ takeWhile P (snd s), dropWhile P (snd s))"

definition spec_fraction :: "unicode_tables \<Rightarrow> scan \<Rightarrow> scan" where
  "spec_fraction U s =
     (if starts (\<lambda>c. c = 46) (snd s)
      then many (unicode_IsDigit U) (one_if (\<lambda>c. c = 46) s) else s)"

definition spec_exponent :: "unicode_tables \<Rightarrow> scan \<Rightarrow> scan" where
  "spec_exponent U s =
     (if starts (\<lambda>c. c = 101 \<or> c = 69) (snd s)
      then many (unicode_IsDigit U)
             (one_if (\<lambda>c. c = 43 \<or> c = 45) (one_if (\<lambda>c. c = 101 \<or> c = 69) s))
      else s)"

definition spec_greedy_number :: "unicode_tables \<Rightarrow> rune list \<Rightarrow> scan" where
  "spec_greedy_number U t =
     spec_exponent U (spec_fraction U (many (unicode_IsDigit U) (one_if (\<lambda>c. c = 45) ([], t))))"

lemma number_sign_scan:
  "number_sign r (lex_at f t)
     = (fst (one_if (\<lambda>c. c = 45) (r, t)), lex_at f (snd (one_if (\<lambda>c. c = 45) (r, t))))"
  by (cases t) (simp_all add: number_sign_def one_if_def)

lemma exponent_sign_scan:
  "exponent_sign r (lex_at f t)
     = (fst (one_if (\<lambda>c. c = 43 \<or> c = 45) (r, t)),
        lex_at f (snd (one_if (\<lambda>c. c = 43 \<or> c = 45) (r, t))))"
  by (cases t) (simp_all add: exponent_sign_def one_if_def)

lemma readDigits_scan:
  "readDigits U r (lex_at f t)
     = (fst (many (unicode_IsDigit U) (r, t)), lex_at f (snd (many (unicode_IsDigit U) (r, t))))"
  by (simp add: readDigits_lex_at many_def)

lemma number_fraction_scan:
  "number_fraction U r (lex_at f t)
     = (fst (spec_fraction U (r, t)), lex_at f (snd (spec_fraction U (r, t))))"
  by (cases t) (simp_all add: number_fraction_def spec_fraction_def one_if_def readDigits_scan)

lemma number_exponent_scan:
  "number_exponent U r (lex_at f t)
     = (fst (spec_exponent U (r, t)), lex_at f (snd (spec_exponent U (r, t))))"
proof (cases t)
  case Nil
  then show ?thesis by (simp add: number_exponent_def spec_exponent_def)
next
  case (Cons c cs)
  show ?thesis
  proof (cases "c = 101 \<or> c = 69")
    case False
    with Cons show ?thesis by (simp add: number_exponent_def spec_exponent_def)
  next
    case True
    obtain r' t' where o: "one_if (\<lambda>c. c = 43 \<or> c = 45) (r @ [c], cs) = (r', t')"
      by (cases "one_if (\<lambda>c. c = 43 \<or> c = 45) (r @ [c], cs)")
    have "one_if (\<lambda>c. c = 101 \<or> c = 69) (r, t) = (r @ [c], cs)"
      using True Cons by (simp add: one_if_def)
    moreover have "exponent_sign (r @ [c]) (lex_at f cs) = (r', lex_at f t')"
      using exponent_sign_scan [of "r @ [c]" f cs] o by simp
    ultimately show ?thesis
      using True Cons o by (simp add: number_exponent_def spec_exponent_def readDigits_scan)
  qed
qed

lemma readNumber_scan:
  "readNumber U (lex_at f t)
     = (fst (spec_greedy_number U t), lex_at f (snd (spec_greedy_number U t)))"
proof -
  obtain r1 t1 where s1: "one_if (\<lambda>c. c = 45) ([], t) = (r1, t1)"
    by (cases "one_if (\<lambda>c. c = 45) ([], t)")
  obtain r2 t2 where s2: "many (unicode_IsDigit U) (r1, t1) = (r2, t2)"
    by (cases "many (unicode_IsDigit U) (r1, t1)")
  obtain r3 t3 where s3: "spec_fraction U (r2, t2) = (r3, t3)"
    by (cases "spec_fraction U (r2, t2)")
  have "number_sign [] (lex_at f t) = (r1, lex_at f t1)"
    using number_sign_scan [of "[]" f t] s1 by simp
  moreover have "readDigits U r1 (lex_at f t1) = (r2, lex_at f t2)"
    using readDigits_scan [of U r1 f t1] s2 by simp
  moreover have "number_fraction U r2 (lex_at f t2) = (r3, lex_at f t3)"
    using number_fraction_scan [of U r2 f t2] s3 by simp
  ultimately show ?thesis
    using number_exponent_scan [of U r3 f t3]
    by (simp add: readNumber_def spec_greedy_number_def s1 s2 s3)
qed

lemma one_if_whole: "fst (one_if P s) @ snd (one_if P s) = fst s @ snd s"
  by (cases "snd s") (simp_all add: one_if_def)

lemma many_whole: "fst (many P s) @ snd (many P s) = fst s @ snd s"
  by (simp add: many_def)

lemma spec_fraction_whole: "fst (spec_fraction U s) @ snd (spec_fraction U s) = fst s @ snd s"
  by (simp add: spec_fraction_def many_whole one_if_whole)

lemma spec_exponent_whole: "fst (spec_exponent U s) @ snd (spec_exponent U s) = fst s @ snd s"
  by (simp add: spec_exponent_def many_whole one_if_whole)

lemma spec_greedy_number_whole:
  "fst (spec_greedy_number U t) @ snd (spec_greedy_number U t) = t"
  by (simp add: spec_greedy_number_def spec_exponent_whole spec_fraction_whole many_whole
      one_if_whole)

lemma one_if_grows: "length (fst s) \<le> length (fst (one_if P s))"
  by (cases "snd s") (simp_all add: one_if_def)

lemma many_grows: "length (fst s) \<le> length (fst (many P s))"
  by (simp add: many_def)

lemma spec_fraction_grows: "length (fst s) \<le> length (fst (spec_fraction U s))"
  using order_trans [OF one_if_grows many_grows] by (simp add: spec_fraction_def)

lemma spec_exponent_grows: "length (fst s) \<le> length (fst (spec_exponent U s))"
  using order_trans [OF one_if_grows order_trans [OF one_if_grows many_grows]]
  by (simp add: spec_exponent_def)

lemma spec_greedy_number_not_empty:
  assumes "c = 45 \<or> unicode_IsDigit U c"
  shows "fst (spec_greedy_number U (c # t)) \<noteq> []"
proof -
  let ?s = "many (unicode_IsDigit U) (one_if (\<lambda>c. c = 45) ([], c # t))"
  have "0 < length (fst ?s)"
    using assms by (auto simp: one_if_def many_def)
  also have "\<dots> \<le> length (fst (spec_greedy_number U (c # t)))"
    using order_trans [OF spec_fraction_grows spec_exponent_grows]
    by (simp add: spec_greedy_number_def)
  finally show ?thesis by simp
qed

lemma many_stops: "\<not> starts P (snd (many P s))"
proof (cases "dropWhile P (snd s)")
  case Nil
  show ?thesis unfolding many_def snd_conv Nil by simp
next
  case (Cons c cs)
  with hd_dropWhile [of P "snd s"] show ?thesis by (simp add: many_def)
qed

lemma spec_fraction_stops:
  "\<not> starts (unicode_IsDigit U) (snd s) \<Longrightarrow> \<not> starts (unicode_IsDigit U) (snd (spec_fraction U s))"
  by (simp add: spec_fraction_def many_stops)

lemma spec_exponent_stops:
  "\<not> starts (unicode_IsDigit U) (snd s) \<Longrightarrow> \<not> starts (unicode_IsDigit U) (snd (spec_exponent U s))"
  by (simp add: spec_exponent_def many_stops)

lemma spec_greedy_number_stops:
  "\<not> starts (unicode_IsDigit U) (snd (spec_greedy_number U t))"
  by (simp add: spec_greedy_number_def spec_exponent_stops spec_fraction_stops many_stops)

lemma NextToken_number_scan:
  assumes "c = 45 \<or> unicode_IsDigit U c"
  shows "NextToken U (lex_at f (c # t))
           = (\<lparr>Type = TokenNumber, Literal = fst (spec_greedy_number U (c # t))\<rparr>,
              lex_at f (snd (spec_greedy_number U (c # t))))"
  using NextToken_number_dispatch [OF assms, of f t] by (simp add: readNumber_scan)

lemma number_member_accepted:
  assumes "c = 45 \<or> unicode_IsDigit U c" and "snd (spec_greedy_number U (c # t)) = [125]"
  shows \<open>validate U (text_stream (runes ''{"a":'' @ c # t)) = Some None\<close>
  using scalar_member_accepted [of U "c # t" "fst (spec_greedy_number U (c # t))"]
    NextToken_number_scan [OF assms(1), of EOF t] assms(2)
  by (simp add: parser_at_eval)

lemma many_run:
  assumes "list_all P ds" and "\<not> starts P t"
  shows "many P (r, ds @ t) = (r @ ds, t)"
proof -
  have "takeWhile P t = []" "dropWhile P t = t"
    using assms(2) by (cases t; simp)+
  with assms(1) show ?thesis by (simp add: many_def list_all_iff)
qed

lemma digits_then_point:
  assumes "list_all (unicode_IsDigit U) ds" and "ds \<noteq> []"
  shows "spec_greedy_number U (ds @ [46, 125]) = (ds @ [46], [125])"
proof -
  from assms obtain d ds' where ds: "ds = d # ds'" "unicode_IsDigit U d" by (cases ds) auto
  then have "d \<noteq> 45" by (auto simp: unicode_IsDigit_def split: if_splits)
  then have "one_if (\<lambda>c. c = 45) ([], ds @ [46, 125]) = ([], ds @ [46, 125])"
    using ds by (simp add: one_if_def)
  moreover have "many (unicode_IsDigit U) ([], ds @ [46, 125]) = (ds, [46, 125])"
    using many_run [OF assms(1), of "[46, 125]" "[]"] by (simp add: unicode_IsDigit_def)
  moreover have "spec_fraction U (ds, [46, 125]) = (ds @ [46], [125])"
    by (simp add: spec_fraction_def one_if_def many_def unicode_IsDigit_def)
  moreover have "spec_exponent U (ds @ [46], [125]) = (ds @ [46], [125])"
    by (simp add: spec_exponent_def)
  ultimately show ?thesis by (simp add: spec_greedy_number_def)
qed

lemma digits_then_exponent:
  assumes "list_all (unicode_IsDigit U) ds" and "ds \<noteq> []"
  shows "spec_greedy_number U (ds @ [101, 125]) = (ds @ [101], [125])"
proof -
  from assms obtain d ds' where ds: "ds = d # ds'" "unicode_IsDigit U d" by (cases ds) auto
  then have "d \<noteq> 45" by (auto simp: unicode_IsDigit_def split: if_splits)
  then have "one_if (\<lambda>c. c = 45) ([], ds @ [101, 125]) = ([], ds @ [101, 125])"
    using ds by (simp add: one_if_def)
  moreover have "many (unicode_IsDigit U) ([], ds @ [101, 125]) = (ds, [101, 125])"
    using many_run [OF assms(1), of "[101, 125]" "[]"] by (simp add: unicode_IsDigit_def)
  moreover have "spec_fraction U (ds, [101, 125]) = (ds, [101, 125])"
    by (simp add: spec_fraction_def)
  moreover have "spec_exponent U (ds, [101, 125]) = (ds @ [101], [125])"
    by (simp add: spec_exponent_def one_if_def many_def unicode_IsDigit_def)
  ultimately show ?thesis by (simp add: spec_greedy_number_def)
qed

lemma digits_member_accepted:
  assumes "list_all (unicode_IsDigit U) ds" and "ds \<noteq> []"
  shows \<open>validate U (text_stream (runes ''{"a":'' @ ds @ runes ''.}'')) = Some None\<close>
    and \<open>validate U (text_stream (runes ''{"a":'' @ ds @ runes ''e}'')) = Some None\<close>
proof -
  from assms obtain d ds' where ds: "ds = d # ds'" "unicode_IsDigit U d" by (cases ds) auto
  show \<open>validate U (text_stream (runes ''{"a":'' @ ds @ runes ''.}'')) = Some None\<close>
    using number_member_accepted [of d U "ds' @ [46, 125]"] digits_then_point [OF assms] ds
    by (simp add: runes_def)
  show \<open>validate U (text_stream (runes ''{"a":'' @ ds @ runes ''e}'')) = Some None\<close>
    using number_member_accepted [of d U "ds' @ [101, 125]"] digits_then_exponent [OF assms] ds
    by (simp add: runes_def)
qed

lemmas scan_simps =
  spec_greedy_number_def spec_fraction_def spec_exponent_def one_if_def many_def

section \<open>The claims\<close>

text \<open>
  C1. As stated, for every well-formed JSON object document, the claim fails: the document
  \<^verbatim>\<open>{"a":"\u0041"}\<close> is well-formed JSON (RFC 8259) and is rejected, since \<^verbatim>\<open>readString\<close> has no
  case for \<^verbatim>\<open>\u\<close>.
\<close>

theorem unicode_escape_rejected:
  \<open>json_document rfc_string rfc_number (runes ''{"a":"'' @ [92] @ runes ''u0041"}'')
   \<and> (\<forall>U. validate U (text_stream (runes ''{"a":"'' @ [92] @ runes ''u0041"}''))
          = Some (Some (runes ''invalid value: expected value, got invalid escape sequence: ''
                        @ [92] @ runes ''u'')))\<close>
proof (intro conjI allI)
  have "rfc_string [97]" by (intro rfc_string.intros) simp_all
  moreover have "rfc_string [92, 117, 48, 48, 52, 49]"
    by (intro rfc_string.intros) (simp_all add: is_hex_def is_digit_def)
  ultimately have "json_object rfc_string rfc_number
      (123 # 34 # [97] @ 34 # 58 # (34 # [92, 117, 48, 48, 52, 49] @ [34]) @ [125])"
    by (intro compact_member v_string)
  from json_documentI [OF white_Nil this white_Nil]
  show \<open>json_document rfc_string rfc_number (runes ''{"a":"'' @ [92] @ runes ''u0041"}'')\<close>
    by (simp add: runes_def)
next
  fix U
  have \<open>\<exists>p. ParseObjectF U (Suc (Suc (Suc 0)))
          (parser_at U EOF (runes ''{"a":"'' @ [92] @ runes ''u0041"}''))
       = Some (Some (runes ''invalid value: expected value, got invalid escape sequence: ''
                        @ [92] @ runes ''u''), p)\<close>
    by (simp add: parse_simps invalid_value_def expected_value_def)
  then obtain p where \<open>ParseObjectF U (Suc (Suc (Suc 0)))
          (parser_at U EOF (runes ''{"a":"'' @ [92] @ runes ''u0041"}''))
       = Some (Some (runes ''invalid value: expected value, got invalid escape sequence: ''
                        @ [92] @ runes ''u''), p)\<close> ..
  from validate_fuel(2) [OF this]
  show \<open>validate U (text_stream (runes ''{"a":"'' @ [92] @ runes ''u0041"}''))
          = Some (Some (runes ''invalid value: expected value, got invalid escape sequence: ''
                        @ [92] @ runes ''u''))\<close> .
qed

text \<open>
  C1, amended. Every object document of the specification's own grammar (section 4.2, with
  the string escapes and the number shape of section 4.1, so without \<^verbatim>\<open>\u\<close>), whitespace
  around it allowed, is accepted: \<^verbatim>\<open>ParseObject\<close> on the fresh parser returns \<^verbatim>\<open>nil\<close>. The four
  inputs of the claim are the witness.
\<close>

theorem well_formed_object_accepted:
  assumes "json_document supported_string number_text doc"
  shows "validate U (text_stream doc) = Some None"
proof -
  from assms obtain w1 ob w2 where
    "white w1" "json_object supported_string number_text ob" "white w2" "doc = w1 @ ob @ w2"
    by (auto simp: json_document_def)
  with object_accepted(2) [of ob w1 U w2] show ?thesis by simp
qed

theorem well_formed_object_accepted_witness:
  \<open>\<forall>U. validate U (text_stream (runes ''{}'')) = Some None
     \<and> validate U (text_stream (runes ''{"a":1}'')) = Some None
     \<and> validate U (text_stream (runes ''{"a":[1,2,3]}'')) = Some None
     \<and> validate U (text_stream (runes ''{"a":{"b":null}}'')) = Some None\<close>
proof (intro allI conjI)
  fix U
  let ?S = supported_string and ?N = number_text
  have key: "?S [97]" "?S [98]" by (simp_all add: plain_supported)
  have num: "json_value ?S ?N [49]" "json_value ?S ?N [50]" "json_value ?S ?N [51]"
    by (simp_all add: v_number digit_number is_digit_def)
  have d1: "json_document ?S ?N ([] @ (123 # [] @ [125]) @ [])"
    by (intro json_documentI empty_object white_Nil)
  have d2: "json_document ?S ?N ([] @ (123 # 34 # [97] @ 34 # 58 # [49] @ [125]) @ [])"
    by (intro json_documentI compact_member key num white_Nil)
  have "json_elements ?S ?N ([49] @ 44 # [50] @ 44 # [51])"
    by (intro compact_elements num)
  then have "json_value ?S ?N (91 # ([49] @ 44 # [50] @ 44 # [51]) @ [93])"
    by (intro v_array array)
  then have d3: "json_document ?S ?N
      ([] @ (123 # 34 # [97] @ 34 # 58 # (91 # ([49] @ 44 # [50] @ 44 # [51]) @ [93]) @ [125]) @ [])"
    by (intro json_documentI compact_member key white_Nil)
  have "json_value ?S ?N (123 # 34 # [98] @ 34 # 58 # runes ''null'' @ [125])"
    by (intro v_object compact_member key v_null)
  then have d4: "json_document ?S ?N
      ([] @ (123 # 34 # [97] @ 34 # 58 # (123 # 34 # [98] @ 34 # 58 # runes ''null'' @ [125]) @ [125]) @ [])"
    by (intro json_documentI compact_member key white_Nil)
  show \<open>validate U (text_stream (runes ''{}'')) = Some None\<close>
    using well_formed_object_accepted [OF d1, of U] by (simp add: runes_def)
  show \<open>validate U (text_stream (runes ''{"a":1}'')) = Some None\<close>
    using well_formed_object_accepted [OF d2, of U] by (simp add: runes_def)
  show \<open>validate U (text_stream (runes ''{"a":[1,2,3]}'')) = Some None\<close>
    using well_formed_object_accepted [OF d3, of U] by (simp add: runes_def)
  show \<open>validate U (text_stream (runes ''{"a":{"b":null}}'')) = Some None\<close>
    using well_formed_object_accepted [OF d4, of U] by (simp add: runes_def)
qed



text \<open>
  C3. An object of the grammar followed by any text at all is accepted: \<^verbatim>\<open>ParseObject\<close> returns
  \<^verbatim>\<open>nil\<close> once it has read the closing brace of the root object and the one token after it.
  The parser is left as a fresh parser over the trailing text would be: of that text only
  the lookahead token has been read, and no token of it is checked.
\<close>

theorem trailing_content_accepted:
  assumes "json_object supported_string number_text ob" and "white w"
  shows "ParseObject U (NewParser U (NewLexer (text_stream (w @ ob @ trailing))))
           = Some (None, NewParser U (NewLexer (text_stream trailing)))
         \<and> validate U (text_stream (w @ ob @ trailing)) = Some None"
  using object_accepted [OF assms, of U trailing] by (simp add: NewParser_text)

theorem trailing_content_accepted_witness:
  \<open>\<forall>U. validate U (text_stream (runes ''{} x'')) = Some None
     \<and> validate U (text_stream (runes ''{"a":1} ]'')) = Some None
     \<and> ParseObject U (NewParser U (NewLexer (text_stream (runes ''{"a":1} ]''))))
         = Some (None, \<lparr>lexer = lex_at EOF [],
                         token = \<lparr>Type = TokenRightBracket, Literal = runes '']''\<rparr>\<rparr>)\<close>
proof (intro allI conjI)
  fix U
  let ?S = supported_string and ?N = number_text
  have o1: "json_object ?S ?N (123 # [] @ [125])"
    by (intro empty_object white_Nil)
  have o2: "json_object ?S ?N (123 # 34 # [97] @ 34 # 58 # [49] @ [125])"
    by (intro compact_member v_number digit_number) (simp_all add: plain_supported is_digit_def)
  show \<open>validate U (text_stream (runes ''{} x'')) = Some None\<close>
    using trailing_content_accepted [OF o1 white_Nil, of U "runes '' x''"] by (simp add: runes_def)
  show \<open>validate U (text_stream (runes ''{"a":1} ]'')) = Some None\<close>
    using trailing_content_accepted [OF o2 white_Nil, of U "runes '' ]''"] by (simp add: runes_def)
  show \<open>ParseObject U (NewParser U (NewLexer (text_stream (runes ''{"a":1} ]''))))
         = Some (None, \<lparr>lexer = lex_at EOF [],
                         token = \<lparr>Type = TokenRightBracket, Literal = runes '']''\<rparr>\<rparr>)\<close>
    using trailing_content_accepted [OF o2 white_Nil, of U "runes '' ]''"]
    by (simp add: runes_def NewParser_text parser_at_eval lex_simps)
qed

text \<open>
  C4. The input \<^verbatim>\<open>{"a":1,}\<close> is rejected: after the comma the parser wants a string key,
  finds the right brace and fails with \<^verbatim>\<open>expected string key, got }\<close>.
\<close>

theorem trailing_comma_rejected:
  \<open>validate U (text_stream (runes ''{"a":1,}''))
     = Some (Some (expected_string_key \<lparr>Type = TokenRightBrace, Literal = runes ''}''\<rparr>))
   \<and> expected_string_key \<lparr>Type = TokenRightBrace, Literal = runes ''}''\<rparr>
     = runes ''expected string key, got }''\<close>
proof -
  have \<open>ParseObjectF U (Suc (Suc (Suc 0))) (parser_at U EOF (runes ''{"a":1,}''))
     = Some (Some (expected_string_key \<lparr>Type = TokenRightBrace, Literal = runes ''}''\<rparr>),
             \<lparr>lexer = lex_at EOF [], token = \<lparr>Type = TokenRightBrace, Literal = runes ''}''\<rparr>\<rparr>)\<close>
    by (simp add: parse_simps)
  from validate_fuel(2) [OF this] show ?thesis
    by (simp add: expected_string_key_def runes_def)
qed

text \<open>
  C5. A string literal of the source text made of plain runes and of the eight escapes
  yields a String token whose literal is the decoded text (\<open>string_body s d\<close>: the body
  \<open>s\<close> decodes to \<open>d\<close>, by the table \<open>json_escapes\<close>); an object whose member value is such
  a string validates. The witness has the literals \<^verbatim>\<open>"a\tb"\<close> and \<^verbatim>\<open>"line\nbreak"\<close>.
\<close>

theorem string_token_decoded:
  assumes "string_body s d" and "white w"
  shows \<open>NextToken U (lex_at f (w @ 34 # s @ 34 # t))
           = (\<lparr>Type = TokenString, Literal = d\<rparr>, lex_at f t)
         \<and> validate U (text_stream (runes ''{"a":'' @ w @ 34 # s @ runes ''"}'')) = Some None\<close>
proof -
  have tok: "NextToken U (lex_at f (w @ 34 # s @ 34 # t))
           = (\<lparr>Type = TokenString, Literal = d\<rparr>, lex_at f t)"
    using NextToken_string [OF assms(1)] by (simp add: NextToken_white [OF assms(2)])
  have "supported_string s" "supported_string [97]"
    using assms(1) supported_plain [of "[97]"] by (auto simp: supported_string_def)
  then have "json_object supported_string number_text (123 # 34 # [97] @ 34 # 58 # w @ (34 # s @ [34]) @ [125])"
    by (intro member_object assms(2) v_string)
  from object_accepted(2) [OF this white_Nil, of U "[]"] tok show ?thesis
    by (simp add: runes_def)
qed

theorem string_token_decoded_witness:
  \<open>\<forall>U. NextToken U (lex_at EOF (runes ''"a'' @ [92] @ runes ''tb"''))
         = (\<lparr>Type = TokenString, Literal = [97, 9, 98]\<rparr>, lex_at EOF [])
     \<and> NextToken U (lex_at EOF (runes '' "line'' @ [92] @ runes ''nbreak"}''))
         = (\<lparr>Type = TokenString, Literal = runes ''line'' @ [10] @ runes ''break''\<rparr>,
            lex_at EOF (runes ''}''))
     \<and> validate U (text_stream (runes ''{"a": "line'' @ [92] @ runes ''nbreak"}'')) = Some None\<close>
proof
  fix U
  have a: "string_body ([97] @ [92, 116] @ [98]) [97, 9, 98]"
    by (auto intro!: string_body.intros simp: json_escapes_def)
  have b: "string_body (runes ''line'' @ [92, 110] @ runes ''break'')
             (runes ''line'' @ [10] @ runes ''break'')"
    by (auto intro!: string_body.intros simp: json_escapes_def runes_def)
  have w: "white [32]" by (simp add: white_def is_space_def)
  from string_token_decoded [OF a white_Nil, of U EOF "[]"]
       string_token_decoded [OF b w, of U EOF "runes ''}''"]
  show \<open>NextToken U (lex_at EOF (runes ''"a'' @ [92] @ runes ''tb"''))
         = (\<lparr>Type = TokenString, Literal = [97, 9, 98]\<rparr>, lex_at EOF [])
     \<and> NextToken U (lex_at EOF (runes '' "line'' @ [92] @ runes ''nbreak"}''))
         = (\<lparr>Type = TokenString, Literal = runes ''line'' @ [10] @ runes ''break''\<rparr>,
            lex_at EOF (runes ''}''))
     \<and> validate U (text_stream (runes ''{"a": "line'' @ [92] @ runes ''nbreak"}'')) = Some None\<close>
    by (simp add: runes_def)
qed




text \<open>
  C7. An identifier is the longest run of letters and underscores (it begins with a letter,
  which the digit table does not list as well: in Unicode no rune is both, and on ASCII the
  model fixes it). \<^verbatim>\<open>true\<close> and \<^verbatim>\<open>false\<close> yield a Boolean token, \<^verbatim>\<open>null\<close> a Null token, every
  other identifier an error token with the literal \<^verbatim>\<open>invalid identifier: \<close> followed by the
  identifier. An input is rejected, with a message that holds this literal, when such an
  identifier stands in the root object where the parser wants a key, a colon, a value or a
  separator (\<open>broken_members\<close>); so \<^verbatim>\<open>{"a": tru}\<close> is rejected.
\<close>

theorem identifier_classified:
  \<open>(unicode_IsLetter U c \<and> \<not> unicode_IsDigit U c \<and> list_all (ident_char U) cs
       \<and> \<not> starts (ident_char U) t \<and> white w \<longrightarrow>
      NextToken U (lex_at f (w @ (c # cs) @ t))
        = (if c # cs = runes ''true'' \<or> c # cs = runes ''false''
           then \<lparr>Type = TokenBoolean, Literal = c # cs\<rparr>
           else if c # cs = runes ''null''
           then \<lparr>Type = TokenNull, Literal = c # cs\<rparr>
           else \<lparr>Type = TokenError, Literal = runes ''invalid identifier: '' @ c # cs\<rparr>,
           lex_at f t))
   \<and> (broken_members supported_string number_text (bad_identifier U ident) ms \<and> white w0 \<longrightarrow>
        (\<exists>e. validate U (text_stream (w0 @ 123 # ms)) = Some (Some e)
            \<and> mentions (runes ''invalid identifier: '' @ ident) e))
   \<and> validate U (text_stream (runes ''{"a": tru}''))
        = Some (Some (runes ''invalid value: expected value, got invalid identifier: tru''))\<close>
proof (intro conjI impI)
  assume "unicode_IsLetter U c \<and> \<not> unicode_IsDigit U c \<and> list_all (ident_char U) cs
       \<and> \<not> starts (ident_char U) t \<and> white w"
  then show "NextToken U (lex_at f (w @ (c # cs) @ t))
        = (if c # cs = runes ''true'' \<or> c # cs = runes ''false''
           then \<lparr>Type = TokenBoolean, Literal = c # cs\<rparr>
           else if c # cs = runes ''null''
           then \<lparr>Type = TokenNull, Literal = c # cs\<rparr>
           else \<lparr>Type = TokenError, Literal = runes ''invalid identifier: '' @ c # cs\<rparr>,
           lex_at f t)"
    using NextToken_identifier [of U c cs t w f] by blast
next
  assume "broken_members supported_string number_text (bad_identifier U ident) ms \<and> white w0"
  then show "\<exists>e. validate U (text_stream (w0 @ 123 # ms)) = Some (Some e)
            \<and> mentions (runes ''invalid identifier: '' @ ident) e"
    using broken_document_rejected [of "bad_identifier U ident" ms w0 U
        "runes ''invalid identifier: '' @ ident"] bad_identifier_token [of U ident _ EOF]
    by blast
next
  have "\<exists>p. parseValueF U (Suc 0) (parser_at U EOF (runes '' tru}''))
          = Some (Some (runes ''expected value, got invalid identifier: tru''), p)"
    by (simp add: parse_simps expected_value_def)
  then obtain p where "parseValueF U (Suc 0) (parser_at U EOF (runes '' tru}''))
          = Some (Some (runes ''expected value, got invalid identifier: tru''), p)" ..
  from first_member_value [OF white_Nil white_Nil _ white_Nil this, of "[97]"]
  show \<open>validate U (text_stream (runes ''{"a": tru}''))
           = Some (Some (runes ''invalid value: expected value, got invalid identifier: tru''))\<close>
    by (simp add: plain_supported invalid_value_def runes_def)
qed

theorem identifier_classified_witness:
  \<open>\<forall>U. NextToken U (lex_at EOF (runes ''true,''))
         = (\<lparr>Type = TokenBoolean, Literal = runes ''true''\<rparr>, lex_at EOF (runes '',''))
     \<and> NextToken U (lex_at EOF (runes '' null}''))
         = (\<lparr>Type = TokenNull, Literal = runes ''null''\<rparr>, lex_at EOF (runes ''}''))
     \<and> NextToken U (lex_at EOF (runes ''tru}''))
         = (\<lparr>Type = TokenError, Literal = runes ''invalid identifier: tru''\<rparr>,
            lex_at EOF (runes ''}''))
     \<and> NextToken U (lex_at EOF (runes ''true_x ''))
         = (\<lparr>Type = TokenError, Literal = runes ''invalid identifier: true_x''\<rparr>,
            lex_at EOF (runes '' ''))
     \<and> (\<exists>e. validate U (text_stream (runes ''{"a":[1, tru]}'')) = Some (Some e)
            \<and> mentions (runes ''invalid identifier: tru'') e)\<close>
proof (intro allI conjI)
  fix U
  have l: "unicode_IsLetter U 116" "\<not> unicode_IsDigit U 116" "unicode_IsLetter U 110"
    "\<not> unicode_IsDigit U 110"
    by (simp_all add: unicode_IsLetter_def unicode_IsDigit_def)
  have w: "white [32]" by (simp add: white_def is_space_def)
  have ic: "list_all (ident_char U) (runes ''rue'')" "list_all (ident_char U) (runes ''ull'')"
    "list_all (ident_char U) (runes ''ru'')" "list_all (ident_char U) (runes ''rue_x'')"
    by (simp_all add: runes_def ident_char_def unicode_IsLetter_def)
  have st: "\<not> starts (ident_char U) (runes '','')" "\<not> starts (ident_char U) (runes ''}'')"
    "\<not> starts (ident_char U) (runes '' '')" "\<not> starts (ident_char U) (runes '']}'')"
    by (simp_all add: runes_def ident_char_def unicode_IsLetter_def)
  show \<open>NextToken U (lex_at EOF (runes ''true,''))
         = (\<lparr>Type = TokenBoolean, Literal = runes ''true''\<rparr>, lex_at EOF (runes '',''))\<close>
    using identifier_classified [of U 116 "runes ''rue''" "runes '',''" "[]" EOF, THEN conjunct1]
      l ic st by (simp add: runes_def)
  show \<open>NextToken U (lex_at EOF (runes '' null}''))
         = (\<lparr>Type = TokenNull, Literal = runes ''null''\<rparr>, lex_at EOF (runes ''}''))\<close>
    using identifier_classified [of U 110 "runes ''ull''" "runes ''}''" "[32]" EOF, THEN conjunct1]
      l ic st w by (simp add: runes_def)
  show \<open>NextToken U (lex_at EOF (runes ''tru}''))
         = (\<lparr>Type = TokenError, Literal = runes ''invalid identifier: tru''\<rparr>,
            lex_at EOF (runes ''}''))\<close>
    using identifier_classified [of U 116 "runes ''ru''" "runes ''}''" "[]" EOF, THEN conjunct1]
      l ic st by (simp add: runes_def)
  show \<open>NextToken U (lex_at EOF (runes ''true_x ''))
         = (\<lparr>Type = TokenError, Literal = runes ''invalid identifier: true_x''\<rparr>,
            lex_at EOF (runes '' ''))\<close>
    using identifier_classified [of U 116 "runes ''rue_x''" "runes '' ''" "[]" EOF, THEN conjunct1]
      l ic st by (simp add: runes_def)
  let ?S = supported_string and ?N = number_text and ?E = "bad_identifier U (runes ''tru'')"
  have "?E ([32] @ runes ''tru'' @ runes '']}'')"
    unfolding bad_identifier_def
    using w l(1,2) ic(3) st(4) by (intro exI [of _ "[32]"] exI [of _ 116] exI [of _ "runes ''ru''"]
        exI [of _ "runes '']}''"]) (simp add: runes_def)
  then have "broken_value ?S ?N ?E ([32] @ runes ''tru'' @ runes '']}'')"
    by (rule bad_value)
  then have "broken_elements ?S ?N ?E ([32] @ runes ''tru'' @ runes '']}'')"
    by (rule in_element)
  from later_element [OF white_Nil _ white_Nil this, of "[49]"]
  have "broken_elements ?S ?N ?E ([49] @ 44 # [32] @ runes ''tru'' @ runes '']}'')"
    by (simp add: v_number digit_number is_digit_def)
  from in_array [OF white_Nil this]
  have "broken_value ?S ?N ?E (91 # [49] @ 44 # [32] @ runes ''tru'' @ runes '']}'')"
    by simp
  from in_member [OF white_Nil _ white_Nil this, of "[97]"]
  have b: "broken_members ?S ?N ?E
      (34 # [97] @ 34 # 58 # 91 # [49] @ 44 # [32] @ runes ''tru'' @ runes '']}'')"
    by (simp add: plain_supported)
  from identifier_classified [of U _ _ _ _ _ "runes ''tru''"
      "34 # [97] @ 34 # 58 # 91 # [49] @ 44 # [32] @ runes ''tru'' @ runes '']}''" "[]",
      THEN conjunct2, THEN conjunct1] b
  have "\<exists>e. validate U (text_stream ([] @ 123 # 34 # [97] @ 34 # 58 # 91 # [49] @ 44 # [32]
            @ runes ''tru'' @ runes '']}'')) = Some (Some e)
         \<and> mentions (runes ''invalid identifier: '' @ runes ''tru'') e"
    by simp
  then show \<open>\<exists>e. validate U (text_stream (runes ''{"a":[1, tru]}'')) = Some (Some e)
            \<and> mentions (runes ''invalid identifier: tru'') e\<close>
    by (simp add: runes_def)
qed

text \<open>
  C8. Once \<^verbatim>\<open>readChar\<close> has met the clean end of the stream, \<^verbatim>\<open>NextToken\<close> returns the
  end-of-input token, and so does every later call; none of these calls changes the lexer
  (its reader included: no further rune is read).
\<close>

theorem NextToken_EOF_idempotent:
  assumes "pending (reader l0) = []" and "final (reader l0) = EOF" and "l = readChar l0"
  shows "fst (NextToken U (((\<lambda>l. snd (NextToken U l)) ^^ k) l)) = \<lparr>Type = TokenEOF, Literal = []\<rparr>
         \<and> ((\<lambda>l. snd (NextToken U l)) ^^ k) l = l"
proof -
  have l: "err l = Some EOF" "char l = 0"
    using assms by (simp_all add: readChar_exhausted)
  have "((\<lambda>l. snd (NextToken U l)) ^^ k) l = l"
    by (induction k) (simp_all add: NextToken_EOF [OF l])
  then show ?thesis by (simp add: NextToken_EOF [OF l])
qed

theorem NextToken_EOF_idempotent_witness:
  "\<forall>U. fst (NextToken U (((\<lambda>l. snd (NextToken U l)) ^^ 3)
           (readChar \<lparr>reader = \<lparr>pending = [], final = EOF\<rparr>, char = 125, err = None\<rparr>)))
        = \<lparr>Type = TokenEOF, Literal = []\<rparr>
      \<and> ((\<lambda>l. snd (NextToken U l)) ^^ 3)
           (readChar \<lparr>reader = \<lparr>pending = [], final = EOF\<rparr>, char = 125, err = None\<rparr>)
        = readChar \<lparr>reader = \<lparr>pending = [], final = EOF\<rparr>, char = 125, err = None\<rparr>"
proof
  fix U
  let ?l0 = "\<lparr>reader = \<lparr>pending = [], final = EOF\<rparr>, char = 125, err = None\<rparr>"
  have "pending (reader ?l0) = []" and "final (reader ?l0) = EOF" by simp_all
  then show "fst (NextToken U (((\<lambda>l. snd (NextToken U l)) ^^ 3) (readChar ?l0)))
        = \<lparr>Type = TokenEOF, Literal = []\<rparr>
      \<and> ((\<lambda>l. snd (NextToken U l)) ^^ 3) (readChar ?l0) = readChar ?l0"
    by (rule NextToken_EOF_idempotent) (rule refl)
qed

text \<open>
  C9. Absent I/O errors, \<^verbatim>\<open>validJSON\<close> returns true exactly when the file is not empty, its
  first byte is a left brace and its last byte is a right brace; whatever lies between the
  two is not looked at. (The file is a regular file, whose size is the number of its bytes.)
\<close>

theorem validJSON_first_and_last_byte:
  assumes "fs filename = Some f" and "no_fault f"
  shows "snd (validJSON fs filename) = None
     \<and> (fst (validJSON fs filename) \<longleftrightarrow>
          bytes f \<noteq> [] \<and> hd (bytes f) = CHR ''{'' \<and> last (bytes f) = CHR ''}'')
     \<and> (bytes f = CHR ''{'' # interior @ [CHR ''}''] \<longrightarrow> fst (validJSON fs filename))"
  using assms by (auto simp: validJSON_no_fault)

theorem validJSON_first_and_last_byte_witness:
  "fst (validJSON [''data.json'' \<mapsto> \<lparr>bytes = ''{]]}'', offset = 0, stat_fault = False,
                     read_fault = False, seek_fault = False\<rparr>] ''data.json'')
   \<and> \<not> fst (validJSON [''data.json'' \<mapsto> \<lparr>bytes = ''{'', offset = 0, stat_fault = False,
                     read_fault = False, seek_fault = False\<rparr>] ''data.json'')"
  using validJSON_first_and_last_byte
      [of "[''data.json'' \<mapsto> \<lparr>bytes = ''{]]}'', offset = 0, stat_fault = False,
              read_fault = False, seek_fault = False\<rparr>]" "''data.json''" _ "'']]''"]
    validJSON_first_and_last_byte
      [of "[''data.json'' \<mapsto> \<lparr>bytes = ''{'', offset = 0, stat_fault = False,
              read_fault = False, seek_fault = False\<rparr>]" "''data.json''" _ "[]"]
  by (simp add: no_fault_def)

text \<open>
  C10. At a minus sign or a digit, \<^verbatim>\<open>NextToken\<close> always returns a Number token, never an
  error token. Its literal is what the greedy assembly rule matches at the head of the
  text (an optional minus sign, digits, an optional point and digits, an optional exponent
  mark, sign and digits, none of them required), and the lexer is left on the text that
  follows the literal: the literal is a prefix of the text, it is not empty, and what
  follows it does not begin with a digit. A minus sign before a right brace is the Number
  token \<^verbatim>\<open>-\<close>. A member value that the rule matches up to the closing brace of the root
  object is accepted, whatever its shape: digits followed by a point or by an exponent mark
  alone, and the inputs \<^verbatim>\<open>{"a":-}\<close>, \<^verbatim>\<open>{"a":1.}\<close> and \<^verbatim>\<open>{"a":3e}\<close>.
\<close>

theorem number_never_lex_error:
  assumes "c = 45 \<or> unicode_IsDigit U c" and "white w"
  shows \<open>NextToken U (lex_at f (w @ c # t))
           = (\<lparr>Type = TokenNumber, Literal = fst (spec_greedy_number U (c # t))\<rparr>,
              lex_at f (snd (spec_greedy_number U (c # t))))
         \<and> fst (spec_greedy_number U (c # t)) @ snd (spec_greedy_number U (c # t)) = c # t
         \<and> fst (spec_greedy_number U (c # t)) \<noteq> []
         \<and> \<not> starts (unicode_IsDigit U) (snd (spec_greedy_number U (c # t)))
         \<and> NextToken U (lex_at f (w @ 45 # 125 # t))
           = (\<lparr>Type = TokenNumber, Literal = runes ''-''\<rparr>, lex_at f (125 # t))
         \<and> (snd (spec_greedy_number U (c # t)) = runes ''}''
              \<longrightarrow> validate U (text_stream (runes ''{"a":'' @ c # t)) = Some None)
         \<and> (list_all (unicode_IsDigit U) ds \<and> ds \<noteq> []
              \<longrightarrow> validate U (text_stream (runes ''{"a":'' @ ds @ runes ''.}'')) = Some None
                \<and> validate U (text_stream (runes ''{"a":'' @ ds @ runes ''e}'')) = Some None)
         \<and> validate U (text_stream (runes ''{"a":-}'')) = Some None
         \<and> validate U (text_stream (runes ''{"a":1.}'')) = Some None
         \<and> validate U (text_stream (runes ''{"a":3e}'')) = Some None\<close>
proof (intro conjI impI)
  show "NextToken U (lex_at f (w @ c # t))
           = (\<lparr>Type = TokenNumber, Literal = fst (spec_greedy_number U (c # t))\<rparr>,
              lex_at f (snd (spec_greedy_number U (c # t))))"
    using NextToken_number_scan [OF assms(1), of f t]
    by (simp only: NextToken_white [OF assms(2)])
  show "fst (spec_greedy_number U (c # t)) @ snd (spec_greedy_number U (c # t)) = c # t"
    by (rule spec_greedy_number_whole)
  show "fst (spec_greedy_number U (c # t)) \<noteq> []"
    by (rule spec_greedy_number_not_empty [OF assms(1)])
  show "\<not> starts (unicode_IsDigit U) (snd (spec_greedy_number U (c # t)))"
    by (rule spec_greedy_number_stops)
  have "NextToken U (lex_at f (45 # 125 # t))
           = (\<lparr>Type = TokenNumber, Literal = runes ''-''\<rparr>, lex_at f (125 # t))"
    by (simp add: lex_simps)
  then show "NextToken U (lex_at f (w @ 45 # 125 # t))
           = (\<lparr>Type = TokenNumber, Literal = runes ''-''\<rparr>, lex_at f (125 # t))"
    by (simp only: NextToken_white [OF assms(2)])
  show \<open>validate U (text_stream (runes ''{"a":'' @ c # t)) = Some None\<close>
    if "snd (spec_greedy_number U (c # t)) = runes ''}''"
    using number_member_accepted [OF assms(1), of t] that by (simp add: runes_def)
  show \<open>validate U (text_stream (runes ''{"a":'' @ ds @ runes ''.}'')) = Some None\<close>
    if "list_all (unicode_IsDigit U) ds \<and> ds \<noteq> []"
    using digits_member_accepted(1) [of U ds] that by simp
  show \<open>validate U (text_stream (runes ''{"a":'' @ ds @ runes ''e}'')) = Some None\<close>
    if "list_all (unicode_IsDigit U) ds \<and> ds \<noteq> []"
    using digits_member_accepted(2) [of U ds] that by simp
  show \<open>validate U (text_stream (runes ''{"a":-}'')) = Some None\<close>
    using scalar_member_accepted [of U "runes ''-}''" "runes ''-''"]
    by (simp add: parser_at_eval lex_simps)
  show \<open>validate U (text_stream (runes ''{"a":1.}'')) = Some None\<close>
    using scalar_member_accepted [of U "runes ''1.}''" "runes ''1.''"]
    by (simp add: parser_at_eval lex_simps)
  show \<open>validate U (text_stream (runes ''{"a":3e}'')) = Some None\<close>
    using scalar_member_accepted [of U "runes ''3e}''" "runes ''3e''"]
    by (simp add: parser_at_eval lex_simps)
qed

theorem number_never_lex_error_witness:
  \<open>\<forall>U. NextToken U (lex_at EOF (runes '' -.e+}''))
         = (\<lparr>Type = TokenNumber, Literal = runes ''-.e+''\<rparr>, lex_at EOF (runes ''}''))
     \<and> validate U (text_stream (runes ''{"a":-.e+}'')) = Some None
     \<and> validate U (text_stream (runes ''{"a":12.}'')) = Some None
     \<and> validate U (text_stream (runes ''{"a":12e}'')) = Some None
     \<and> NextToken U (lex_at EOF (runes ''-5}''))
         = (\<lparr>Type = TokenNumber, Literal = runes ''-5''\<rparr>, lex_at EOF (runes ''}''))
     \<and> NextToken U (lex_at EOF (runes ''12.5E-3]''))
         = (\<lparr>Type = TokenNumber, Literal = runes ''12.5E-3''\<rparr>, lex_at EOF (runes '']''))\<close>
proof (intro allI conjI)
  fix U
  have w: "white [32]" by (simp add: white_def is_space_def)
  have g: "spec_greedy_number U (runes ''-.e+}'') = (runes ''-.e+'', runes ''}'')"
    by (simp add: scan_simps runes_def unicode_IsDigit_def)
  note a = number_never_lex_error [OF _ w, of 45 U EOF "runes ''.e+}''" "runes ''12''"]
  show \<open>NextToken U (lex_at EOF (runes '' -.e+}''))
         = (\<lparr>Type = TokenNumber, Literal = runes ''-.e+''\<rparr>, lex_at EOF (runes ''}''))\<close>
    using a g by (simp add: runes_def)
  show \<open>validate U (text_stream (runes ''{"a":-.e+}'')) = Some None\<close>
    using a g by (simp add: runes_def)
  show \<open>validate U (text_stream (runes ''{"a":12.}'')) = Some None\<close>
    using a by (simp add: runes_def unicode_IsDigit_def)
  show \<open>validate U (text_stream (runes ''{"a":12e}'')) = Some None\<close>
    using a by (simp add: runes_def unicode_IsDigit_def)
  show \<open>NextToken U (lex_at EOF (runes ''-5}''))
         = (\<lparr>Type = TokenNumber, Literal = runes ''-5''\<rparr>, lex_at EOF (runes ''}''))\<close>
    using number_never_lex_error [OF _ white_Nil, of 45 U EOF "runes ''5}''" "[]"]
    by (simp add: scan_simps runes_def unicode_IsDigit_def)
  show \<open>NextToken U (lex_at EOF (runes ''12.5E-3]''))
         = (\<lparr>Type = TokenNumber, Literal = runes ''12.5E-3''\<rparr>, lex_at EOF (runes '']''))\<close>
    using number_never_lex_error [OF _ white_Nil, of 49 U EOF "runes ''2.5E-3]''" "[]"]
    by (simp add: scan_simps runes_def unicode_IsDigit_def)
qed

end
